theory Spec2Isabelle
  imports Main "HOL-Library.Multiset"
begin

section \<open>Modular decomposition: the output tree and its utilities\<close>

text \<open>
  Source: \<^verbatim>\<open>src/sage/graphs/graph_decompositions/modular_decomposition.py\<close>.
  Python is dynamically typed, and several of the functions below behave differently on a
  tuple, a list and a vertex label, so the model has one type of Python values.
\<close>

datatype NodeType = PRIME | SERIES | PARALLEL | NORMAL | FOREST

text \<open>
  The Python values the tree utilities handle: \<^verbatim>\<open>None\<close>, an integer (a vertex label), a member of the
  enumeration \<^verbatim>\<open>NodeType\<close>, a tuple, a list, and an object of class \<^verbatim>\<open>Node\<close> with its
  fields \<^verbatim>\<open>node_type\<close> and \<^verbatim>\<open>children\<close>. The remaining fields of \<^verbatim>\<open>Node\<close>
  (\<^verbatim>\<open>node_split\<close>, \<^verbatim>\<open>index_in_root\<close>, \<^verbatim>\<open>comp_num\<close>, \<^verbatim>\<open>is_separated\<close>) are set to their
  defaults by the constructor and no function modelled here writes them, so \<^verbatim>\<open>Node.__eq__\<close>
  is equality of the two remaining fields.
\<close>

datatype pyval =
    PNone
  | PInt int
  | PType NodeType
  | PTuple "pyval list"
  | PList "pyval list"
  | PNode (node_type: pyval) (children: "pyval list")

datatype error =
  ValueError | KeyError | IndexError | AttributeError | TypeError | AssertionError | OutOfFuel

text \<open>A list comprehension over a function that may raise: the first exception ends it.\<close>

fun traverse :: "('a \<Rightarrow> error + 'b) \<Rightarrow> 'a list \<Rightarrow> error + 'b list" where
  "traverse f [] = Inr []"
| "traverse f (x # xs) =
     (case f x of
        Inl e \<Rightarrow> Inl e
      | Inr y \<Rightarrow> (case traverse f xs of Inl e \<Rightarrow> Inl e | Inr ys \<Rightarrow> Inr (y # ys)))"

lemma traverse_cong [fundef_cong]:
  "xs = ys \<Longrightarrow> (\<And>x. x \<in> set ys \<Longrightarrow> f x = g x) \<Longrightarrow> traverse f xs = traverse g ys"
  by (induction ys arbitrary: xs) (auto split: sum.splits)

text \<open>A \<^verbatim>\<open>for\<close> loop that returns \<^verbatim>\<open>False\<close> at the first element failing a test.\<close>

fun all_until :: "('a \<Rightarrow> error + bool) \<Rightarrow> 'a list \<Rightarrow> error + bool" where
  "all_until f [] = Inr True"
| "all_until f (x # xs) =
     (case f x of
        Inl e \<Rightarrow> Inl e
      | Inr b \<Rightarrow> if b then all_until f xs else Inr False)"

lemma all_until_cong [fundef_cong]:
  "xs = ys \<Longrightarrow> (\<And>x. x \<in> set ys \<Longrightarrow> f x = g x) \<Longrightarrow> all_until f xs = all_until g ys"
  by (induction ys arbitrary: xs) (auto split: sum.splits)

definition create_prime_node :: pyval where
  "create_prime_node = PNode (PType PRIME) []"

definition create_parallel_node :: pyval where
  "create_parallel_node = PNode (PType PARALLEL) []"

definition create_series_node :: pyval where
  "create_series_node = PNode (PType SERIES) []"

definition create_normal_node :: "pyval \<Rightarrow> pyval" where
  "create_normal_node vertex = PNode (PType NORMAL) [vertex]"

text \<open>
  \<^verbatim>\<open>get_vertices\<close>: the inner \<^verbatim>\<open>recurse_component\<close> appends \<^verbatim>\<open>node.children[0]\<close> for a
  \<^verbatim>\<open>NORMAL\<close> node and otherwise visits the children from left to right. Reading
  \<^verbatim>\<open>node_type\<close> of a value that is not a \<^verbatim>\<open>Node\<close> raises \<^verbatim>\<open>AttributeError\<close>, and
  \<^verbatim>\<open>children[0]\<close> of an empty list raises \<^verbatim>\<open>IndexError\<close>.
\<close>

fun get_vertices :: "pyval \<Rightarrow> error + pyval list" where
  "get_vertices (PNode t cs) =
     (if t = PType NORMAL then
        (case cs of [] \<Rightarrow> Inl IndexError | c # _ \<Rightarrow> Inr [c])
      else
        (case traverse get_vertices cs of
           Inl e \<Rightarrow> Inl e
         | Inr vss \<Rightarrow> Inr (concat vss)))"
| "get_vertices _ = Inl AttributeError"

text \<open>
  \<^verbatim>\<open>tree_to_nested_tuple\<close>: a \<^verbatim>\<open>NORMAL\<close> node gives its vertex, any other node the pair
  \<^verbatim>\<open>(root.node_type, [...])\<close>: a tuple of two components, the second a list.
\<close>

fun tree_to_nested_tuple :: "pyval \<Rightarrow> error + pyval" where
  "tree_to_nested_tuple (PNode t cs) =
     (if t = PType NORMAL then
        (case cs of [] \<Rightarrow> Inl IndexError | c # _ \<Rightarrow> Inr c)
      else
        (case traverse tree_to_nested_tuple cs of
           Inl e \<Rightarrow> Inl e
         | Inr xs \<Rightarrow> Inr (PTuple [t, PList xs])))"
| "tree_to_nested_tuple _ = Inl AttributeError"

text \<open>
  \<^verbatim>\<open>nested_tuple_to_tree\<close>: anything that is not a tuple becomes the vertex of a
  \<^verbatim>\<open>NORMAL\<close> node; a tuple gives a node of type \<^verbatim>\<open>nest[0]\<close> whose children are decoded
  from \<^verbatim>\<open>nest[1:]\<close>, the remaining components of the tuple.
\<close>

fun nested_tuple_to_tree :: "pyval \<Rightarrow> error + pyval" where
  "nested_tuple_to_tree (PTuple []) = Inl IndexError"
| "nested_tuple_to_tree (PTuple (t # rest)) =
     (case traverse nested_tuple_to_tree rest of
        Inl e \<Rightarrow> Inl e
      | Inr cs \<Rightarrow> Inr (PNode t cs))"
| "nested_tuple_to_tree nest = Inr (create_normal_node nest)"

text \<open>
  Hashing, needed by \<^verbatim>\<open>frozenset\<close> and by dictionary keys: a list is unhashable, and so
  is a \<^verbatim>\<open>Node\<close>, whose class defines \<^verbatim>\<open>__eq__\<close> without \<^verbatim>\<open>__hash__\<close>; a tuple is
  hashable when its components are.
\<close>

fun hashable :: "pyval \<Rightarrow> bool" where
  "hashable PNone = True"
| "hashable (PInt _) = True"
| "hashable (PType _) = True"
| "hashable (PTuple xs) = list_all hashable xs"
| "hashable (PList _) = False"
| "hashable (PNode _ _) = False"

text \<open>
  \<^verbatim>\<open>node_id\<close>, the inner function of \<^verbatim>\<open>equivalent_trees\<close>: the pair of the node type and
  the frozenset of the vertices below the node. The frozenset is a HOL set.
\<close>

definition node_id :: "pyval \<Rightarrow> error + (pyval \<times> pyval set)" where
  "node_id root =
     (case root of
        PNode t cs \<Rightarrow>
          (case get_vertices root of
             Inl e \<Rightarrow> Inl e
           | Inr vs \<Rightarrow>
               if list_all hashable vs \<and> hashable t then Inr (t, set vs) else Inl TypeError)
      | _ \<Rightarrow> Inl AttributeError)"

text \<open>
  The dictionary \<^verbatim>\<open>child_map\<close> is an association list with the latest entry first, so
  that a later assignment to an equal key hides the earlier one.
\<close>

type_synonym child_map = "((pyval \<times> pyval set) \<times> pyval) list"

fun build_child_map :: "child_map \<Rightarrow> pyval list \<Rightarrow> error + child_map" where
  "build_child_map m [] = Inr m"
| "build_child_map m (n # ns) =
     (case node_id n of Inl e \<Rightarrow> Inl e | Inr k \<Rightarrow> build_child_map ((k, n) # m) ns)"

text \<open>
  Python's \<^verbatim>\<open>==\<close> on the values of the model. When one operand is a \<^verbatim>\<open>Node\<close>,
  \<^verbatim>\<open>Node.__eq__\<close> runs (directly, or reflected after the other operand's own comparison
  has returned \<^verbatim>\<open>NotImplemented\<close>) and reads \<^verbatim>\<open>node_type\<close> of the other operand, which
  raises \<^verbatim>\<open>AttributeError\<close> unless that is a \<^verbatim>\<open>Node\<close> too; for two nodes it compares
  the types and then the lists of children. Two lists of different lengths are unequal
  without any comparison of their items; two tuples are compared item by item up to the
  first difference, and then by length. Values of different kinds are unequal.
\<close>

fun py_eq :: "pyval \<Rightarrow> pyval \<Rightarrow> error + bool"
and py_eq_items :: "pyval list \<Rightarrow> pyval list \<Rightarrow> error + bool" where
  "py_eq (PNode t1 cs1) (PNode t2 cs2) =
     (case py_eq t1 t2 of
        Inl e \<Rightarrow> Inl e
      | Inr b \<Rightarrow>
          if \<not> b then Inr False
          else if length cs1 \<noteq> length cs2 then Inr False
          else py_eq_items cs1 cs2)"
| "py_eq (PNode t1 cs1) _ = Inl AttributeError"
| "py_eq _ (PNode t2 cs2) = Inl AttributeError"
| "py_eq (PList xs) (PList ys) =
     (if length xs \<noteq> length ys then Inr False else py_eq_items xs ys)"
| "py_eq (PTuple xs) (PTuple ys) =
     (case py_eq_items xs ys of
        Inl e \<Rightarrow> Inl e
      | Inr b \<Rightarrow> Inr (b \<and> length xs = length ys))"
| "py_eq (PInt a) (PInt b) = Inr (a = b)"
| "py_eq (PType a) (PType b) = Inr (a = b)"
| "py_eq PNone PNone = Inr True"
| "py_eq _ _ = Inr False"
| "py_eq_items (x # xs) (y # ys) =
     (case py_eq x y of
        Inl e \<Rightarrow> Inl e
      | Inr b \<Rightarrow> if b then py_eq_items xs ys else Inr False)"
| "py_eq_items _ _ = Inr True"

text \<open>
  \<^verbatim>\<open>equivalent_trees\<close>: the checks in the source's order. For \<^verbatim>\<open>NORMAL\<close> nodes the
  two vertices are compared with \<^verbatim>\<open>==\<close>; otherwise every child of \<^verbatim>\<open>root1\<close> is looked
  up in \<^verbatim>\<open>child_map\<close> by its \<^verbatim>\<open>node_id\<close> and compared recursively with the child
  found.
\<close>

fun equivalent_trees :: "pyval \<Rightarrow> pyval \<Rightarrow> error + bool" where
  "equivalent_trees (PNode t1 cs1) (PNode t2 cs2) =
     (if t1 \<noteq> t2 then Inr False
      else if length cs1 \<noteq> length cs2 then Inr False
      else if t1 = PType NORMAL then
        (case (cs1, cs2) of
           (c1 # _, c2 # _) \<Rightarrow> py_eq c1 c2
         | _ \<Rightarrow> Inl IndexError)
      else
        (case build_child_map [] cs2 of
           Inl e \<Rightarrow> Inl e
         | Inr m \<Rightarrow>
             all_until
               (\<lambda>node. case node_id node of
                    Inl e \<Rightarrow> Inl e
                  | Inr k \<Rightarrow>
                      (case map_of m k of
                         None \<Rightarrow> Inr False
                       | Some node2 \<Rightarrow> equivalent_trees node node2))
               cs1))"
| "equivalent_trees _ _ = Inl AttributeError"

definition round_trip :: "pyval \<Rightarrow> error + pyval" where
  "round_trip t =
     (case tree_to_nested_tuple t of Inl e \<Rightarrow> Inl e | Inr nest \<Rightarrow> nested_tuple_to_tree nest)"

section \<open>The graph capabilities the decomposers use\<close>

text \<open>
  The graph class belongs to the host library and is not among the sources; the spec (section
  6) lists what the decomposers need from it: vertex iteration, neighbour query, edge
  iteration, order, directedness check, induced subgraph, connected components, complement.
  The model is a record of a vertex list (in iteration order) and an edge list. Adjacency
  reads the edge list in both directions, between distinct vertices of the graph only, so
  that every value of the record stands for a simple undirected graph on its vertex list.
\<close>

record graph =
  directed :: bool
  vertices :: "pyval list"
  edges :: "(pyval \<times> pyval) list"

text \<open>Modelled from the spec: \<^verbatim>\<open>has_edge\<close>, the adjacency test of the host graph.\<close>

definition has_edge :: "graph \<Rightarrow> pyval \<Rightarrow> pyval \<Rightarrow> bool" where
  "has_edge g u v \<longleftrightarrow>
     u \<noteq> v \<and> u \<in> set (vertices g) \<and> v \<in> set (vertices g)
     \<and> ((u, v) \<in> set (edges g) \<or> (v, u) \<in> set (edges g))"

text \<open>Modelled from the spec: \<^verbatim>\<open>order\<close>, the number of vertices.\<close>

definition order :: "graph \<Rightarrow> nat" where
  "order g = length (vertices g)"

text \<open>Modelled from the spec: \<^verbatim>\<open>neighbors\<close> and \<^verbatim>\<open>neighbor_iterator\<close>, the neighbour query.\<close>

definition neighbors_of :: "graph \<Rightarrow> pyval \<Rightarrow> pyval list" where
  "neighbors_of g v = filter (has_edge g v) (vertices g)"

text \<open>Modelled from the spec: \<^verbatim>\<open>subgraph(vertices=vs)\<close>, the induced subgraph.\<close>

definition subgraph :: "graph \<Rightarrow> pyval list \<Rightarrow> graph" where
  "subgraph g vs =
     g\<lparr>vertices := filter (\<lambda>v. v \<in> set vs) (vertices g),
       edges := filter (\<lambda>(a, b). a \<in> set vs \<and> b \<in> set vs) (edges g)\<rparr>"

text \<open>
  Modelled from the spec: \<^verbatim>\<open>subgraph(edges=es)\<close>, the subgraph with every vertex of the
  graph and those of its edges that are listed. An edge is given as the set of its ends.
\<close>

definition subgraph_edges :: "graph \<Rightarrow> pyval set list \<Rightarrow> graph" where
  "subgraph_edges g es = g\<lparr>edges := filter (\<lambda>(a, b). {a, b} \<in> set es) (edges g)\<rparr>"

text \<open>Modelled from the spec: \<^verbatim>\<open>complement\<close>.\<close>

definition complement :: "graph \<Rightarrow> graph" where
  "complement g =
     g\<lparr>edges := concat (map (\<lambda>u. map (\<lambda>v. (u, v))
                 (filter (\<lambda>v. u \<noteq> v \<and> \<not> has_edge g u v) (vertices g))) (vertices g))\<rparr>"

text \<open>
  Modelled from the spec: \<^verbatim>\<open>connected_components\<close>. \<open>reach g n xs\<close> adds to \<open>xs\<close>, \<open>n\<close>
  times, the vertices adjacent to a vertex already there; after as many rounds as the graph
  has vertices nothing more can be added. The components are listed in the order of their
  first vertices, each in the order of the vertex list after its first vertex.
\<close>

fun reach :: "graph \<Rightarrow> nat \<Rightarrow> pyval list \<Rightarrow> pyval list" where
  "reach g 0 xs = xs"
| "reach g (Suc n) xs =
     reach g n (xs @ filter (\<lambda>w. w \<notin> set xs \<and> (\<exists>x \<in> set xs. has_edge g x w)) (vertices g))"

definition reachable :: "graph \<Rightarrow> pyval \<Rightarrow> pyval \<Rightarrow> bool" where
  "reachable g u v \<longleftrightarrow> v \<in> set (reach g (order g) [u])"

function cc_loop :: "graph \<Rightarrow> pyval list \<Rightarrow> pyval list list" where
  "cc_loop g [] = []"
| "cc_loop g (v # vs) =
     (v # filter (reachable g v) vs) # cc_loop g (filter (\<lambda>u. \<not> reachable g v u) vs)"
  by pat_completeness auto
termination
  by (relation "measure (\<lambda>(g, vs). length vs)") (auto simp: less_Suc_eq_le)

definition connected_components :: "graph \<Rightarrow> pyval list list" where
  "connected_components g = cc_loop g (vertices g)"

text \<open>
  Modelled from the spec: \<^verbatim>\<open>is_connected\<close>; the graph without vertices counts as
  connected.
\<close>

definition is_connected :: "graph \<Rightarrow> bool" where
  "is_connected g \<longleftrightarrow> length (connected_components g) \<le> 1"

text \<open>
  Modelled from the spec: \<^verbatim>\<open>edge_iterator(labels=False)\<close>, each edge once, here already as
  the frozenset of its two ends.
\<close>

definition edge_iterator :: "graph \<Rightarrow> pyval set list" where
  "edge_iterator g =
     remdups (map (\<lambda>(u, v). {u, v}) (filter (\<lambda>(u, v). has_edge g u v) (edges g)))"

text \<open>
  The inputs of the decomposers: a finite simple undirected graph has distinct vertices, no
  loop, no edge to a vertex outside the graph and no edge listed twice.
\<close>

definition simple_graph :: "graph \<Rightarrow> bool" where
  "simple_graph g \<longleftrightarrow>
     \<not> directed g \<and> distinct (vertices g)
     \<and> (\<forall>(u, v) \<in> set (edges g). u \<noteq> v \<and> u \<in> set (vertices g) \<and> v \<in> set (vertices g))
     \<and> distinct (map (\<lambda>(u, v). {u, v}) (edges g))"

definition mk_graph :: "int list \<Rightarrow> (int \<times> int) list \<Rightarrow> graph" where
  "mk_graph vs es =
     \<lparr>directed = False, vertices = map PInt vs, edges = map (\<lambda>(a, b). (PInt a, PInt b)) es\<rparr>"

section \<open>The reference decomposer\<close>

text \<open>
  Modelled from the spec: the union-find structure \<^verbatim>\<open>DisjointSet\<close> of the host library
  (spec 4.2, ``partition the edge set by a union-find''), as the list of its blocks;
  \<^verbatim>\<open>union\<close> joins the block of \<open>b\<close> to the block of \<open>a\<close>.
\<close>

definition ds_union :: "'a list list \<Rightarrow> 'a \<Rightarrow> 'a \<Rightarrow> 'a list list" where
  "ds_union ps a b =
     (case (find (\<lambda>p. a \<in> set p) ps, find (\<lambda>p. b \<in> set p) ps) of
        (Some pa, Some pb) \<Rightarrow>
          if pa = pb then ps
          else map (\<lambda>p. if p = pa then pa @ pb else p) (filter (\<lambda>p. p \<noteq> pb) ps)
      | _ \<Rightarrow> ps)"

text \<open>
  \<^verbatim>\<open>gamma_classes\<close>, the body of the loop \<^verbatim>\<open>for v in graph\<close>: for every connected component
  of the complement of the subgraph induced by the neighbours of \<open>v\<close>, the edge from \<open>v\<close> to
  the component's first vertex is united with the edge from \<open>v\<close> to each other vertex of the
  component.
\<close>

definition gamma_vertex :: "graph \<Rightarrow> pyval \<Rightarrow> pyval set list list \<Rightarrow> pyval set list list" where
  "gamma_vertex g v pieces =
     fold (\<lambda>component ps.
            case component of
              [] \<Rightarrow> ps
            | v1 # rest \<Rightarrow> fold (\<lambda>vi ps'. ds_union ps' {v1, v} {vi, v}) rest ps)
          (connected_components (complement (subgraph g (neighbors_of g v)))) pieces"

text \<open>
  \<^verbatim>\<open>gamma_classes\<close>: the dictionary from the frozenset of the vertices of a class to the
  list of its edges, as an association list; a class whose key is already there replaces
  the value stored under it, as an assignment to a Python dictionary does.
\<close>

type_synonym gclasses = "(pyval set \<times> pyval set list) list"

definition update_dict :: "'k \<Rightarrow> 'v \<Rightarrow> ('k \<times> 'v) list \<Rightarrow> ('k \<times> 'v) list" where
  "update_dict k v m =
     (if k \<in> fst ` set m then map (\<lambda>(k', v'). if k' = k then (k', v) else (k', v')) m
      else m @ [(k, v)])"

definition gamma_classes :: "graph \<Rightarrow> gclasses" where
  "gamma_classes g =
     (let pieces = fold (gamma_vertex g) (vertices g) (map (\<lambda>e. [e]) (edge_iterator g))
      in fold (\<lambda>loe m. update_dict (\<Union> (set loe)) loe m) pieces [])"

text \<open>
  \<^verbatim>\<open>d[k].append(v)\<close> on a \<^verbatim>\<open>defaultdict(list)\<close>: a new key goes to the end of the
  dictionary.
\<close>

fun dict_append :: "('k \<times> 'v list) list \<Rightarrow> 'k \<Rightarrow> 'v \<Rightarrow> ('k \<times> 'v list) list" where
  "dict_append [] k v = [(k, [v])]"
| "dict_append ((k', vs) # m) k v =
     (if k' = k then (k', vs @ [v]) # m else (k', vs) # dict_append m k v)"

text \<open>
  The two dictionaries of the \<^verbatim>\<open>PRIME\<close> case: \<^verbatim>\<open>d\<close> maps a vertex to the vertices that
  have it as a neighbour in \<^verbatim>\<open>sub\<close>, and \<^verbatim>\<open>d1\<close> maps a frozenset of vertices to the keys
  of \<^verbatim>\<open>d\<close> that have it as their value; \<open>neighbor_buckets\<close> is \<^verbatim>\<open>d1.values()\<close>.
\<close>

definition neighbor_dict :: "graph \<Rightarrow> (pyval \<times> pyval list) list" where
  "neighbor_dict sub =
     fold (\<lambda>v m. fold (\<lambda>v1 m'. dict_append m' v1 v) (neighbors_of sub v) m) (vertices sub) []"

definition neighbor_buckets :: "graph \<Rightarrow> pyval list list" where
  "neighbor_buckets sub =
     map snd (fold (\<lambda>(k, v) m. dict_append m (set v) k) (neighbor_dict sub) [])"

text \<open>
  The recursion of \<^verbatim>\<open>habib_maurer_algorithm\<close> ends because every recursive call is on
  fewer vertices: a graph that is not connected has at least two components, and two
  vertices with the same neighbours in \<^verbatim>\<open>sub\<close> are never adjacent there.
\<close>

lemma reach_mono: "set xs \<subseteq> set (reach g n xs)"
proof (induction n arbitrary: xs)
  case 0
  show ?case by simp
next
  case (Suc n)
  let ?ys = "xs @ filter (\<lambda>w. w \<notin> set xs \<and> (\<exists>x \<in> set xs. has_edge g x w)) (vertices g)"
  have "set xs \<subseteq> set ?ys" by simp
  also have "\<dots> \<subseteq> set (reach g n ?ys)" by (rule Suc.IH)
  finally show ?case by simp
qed

lemma reachable_refl: "reachable g v v"
  using reach_mono [of "[v]" g "order g"] by (simp add: reachable_def)

lemma cc_loop_nonempty: "x \<in> set (cc_loop g vs) \<Longrightarrow> x \<noteq> []"
  by (induction g vs rule: cc_loop.induct) auto

lemma cc_loop_subset: "x \<in> set (cc_loop g vs) \<Longrightarrow> set x \<subseteq> set vs"
  by (induction g vs rule: cc_loop.induct) auto

lemma cc_loop_proper:
  assumes "x \<in> set (cc_loop g vs)" and "\<not> length (cc_loop g vs) \<le> 1"
  shows "length (filter (\<lambda>v. v \<in> set x) vs) < length vs"
proof (cases vs)
  case Nil
  with assms show ?thesis by simp
next
  case (Cons v vs')
  define c0 where "c0 = v # filter (reachable g v) vs'"
  define rest where "rest = cc_loop g (filter (\<lambda>u. \<not> reachable g v u) vs')"
  have cc: "cc_loop g vs = c0 # rest"
    by (simp add: Cons c0_def rest_def)
  from assms(2) have rest: "rest \<noteq> []" by (simp add: cc)
  from assms(1) have "x = c0 \<or> x \<in> set rest" by (simp add: cc)
  then have "\<exists>u \<in> set vs. u \<notin> set x"
  proof
    assume x: "x = c0"
    from rest obtain y where y: "y \<in> set rest" by (cases rest) auto
    then have y': "y \<in> set (cc_loop g (filter (\<lambda>u. \<not> reachable g v u) vs'))"
      by (simp add: rest_def)
    from cc_loop_nonempty [OF y'] obtain u where u: "u \<in> set y" by (cases y) auto
    with cc_loop_subset [OF y'] have u': "u \<in> set vs'" "\<not> reachable g v u" by auto
    from u'(2) reachable_refl have "u \<noteq> v" by metis
    with u'(2) have "u \<notin> set c0" by (simp add: c0_def)
    moreover from u'(1) have "u \<in> set vs" by (simp add: Cons)
    ultimately show ?thesis using x by blast
  next
    assume "x \<in> set rest"
    then have x': "x \<in> set (cc_loop g (filter (\<lambda>u. \<not> reachable g v u) vs'))"
      by (simp add: rest_def)
    have "v \<notin> set x"
    proof
      assume "v \<in> set x"
      with cc_loop_subset [OF x'] have "\<not> reachable g v v" by auto
      with reachable_refl show False by metis
    qed
    moreover have "v \<in> set vs" by (simp add: Cons)
    ultimately show ?thesis by blast
  qed
  then obtain u where "u \<in> set vs" "u \<notin> set x" by blast
  then show ?thesis by (rule length_filter_less)
qed

lemma dict_append_inv:
  assumes "\<forall>(k, vs) \<in> set m. vs \<noteq> [] \<and> (\<forall>x \<in> set vs. P k x)" and "P k v"
  shows "\<forall>(k, vs) \<in> set (dict_append m k v). vs \<noteq> [] \<and> (\<forall>x \<in> set vs. P k x)"
  using assms by (induction m k v rule: dict_append.induct) auto

lemma fold_dict_append_inner:
  assumes "\<forall>(k, vs) \<in> set m. vs \<noteq> [] \<and> (\<forall>x \<in> set vs. P k x)" and "\<forall>k \<in> set ks. P k v"
  shows "\<forall>(k, vs) \<in> set (fold (\<lambda>k m'. dict_append m' k v) ks m). vs \<noteq> [] \<and> (\<forall>x \<in> set vs. P k x)"
  using assms
proof (induction ks arbitrary: m)
  case Nil
  then show ?case by simp
next
  case (Cons k ks)
  have "\<forall>(k, vs) \<in> set (dict_append m k v). vs \<noteq> [] \<and> (\<forall>x \<in> set vs. P k x)"
    by (rule dict_append_inv) (use Cons.prems in auto)
  with Cons show ?case by simp
qed

lemma fold_dict_append_outer:
  assumes "\<forall>(k, vs) \<in> set m. vs \<noteq> [] \<and> (\<forall>x \<in> set vs. P k x)"
      and "\<forall>v \<in> set xs. \<forall>k \<in> set (f v). P k v"
  shows "\<forall>(k, vs) \<in> set (fold (\<lambda>v m. fold (\<lambda>k m'. dict_append m' k v) (f v) m) xs m).
           vs \<noteq> [] \<and> (\<forall>x \<in> set vs. P k x)"
  using assms
proof (induction xs arbitrary: m)
  case Nil
  then show ?case by simp
next
  case (Cons x xs)
  have "\<forall>(k, vs) \<in> set (fold (\<lambda>k m'. dict_append m' k x) (f x) m). vs \<noteq> [] \<and> (\<forall>y \<in> set vs. P k y)"
    by (rule fold_dict_append_inner) (use Cons.prems in auto)
  with Cons show ?case by simp
qed

lemma fold_dict_append_pairs:
  assumes "\<forall>(k, vs) \<in> set m. vs \<noteq> [] \<and> (\<forall>x \<in> set vs. P k x)"
      and "\<forall>(a, b) \<in> set xs. P (f b) a"
  shows "\<forall>(k, vs) \<in> set (fold (\<lambda>(a, b) m. dict_append m (f b) a) xs m).
           vs \<noteq> [] \<and> (\<forall>x \<in> set vs. P k x)"
  using assms
proof (induction xs arbitrary: m)
  case Nil
  then show ?case by simp
next
  case (Cons x xs)
  obtain a b where x: "x = (a, b)" by (cases x)
  have "\<forall>(k, vs) \<in> set (dict_append m (f b) a). vs \<noteq> [] \<and> (\<forall>y \<in> set vs. P k y)"
    by (rule dict_append_inv) (use Cons.prems x in auto)
  with Cons x show ?case by simp
qed

lemma neighbor_dict_inv:
  "\<forall>(k, vs) \<in> set (neighbor_dict sub). vs \<noteq> [] \<and> (\<forall>x \<in> set vs. has_edge sub x k)"
proof -
  have "\<forall>v \<in> set (vertices sub). \<forall>k \<in> set (neighbors_of sub v). has_edge sub v k"
    by (simp add: neighbors_of_def)
  from fold_dict_append_outer [where m = "[]" and P = "\<lambda>k x. has_edge sub x k"
      and f = "neighbors_of sub" and xs = "vertices sub", OF _ this]
  show ?thesis unfolding neighbor_dict_def by simp
qed

lemma neighbor_buckets_inv:
  "\<forall>(S, ks) \<in> set (fold (\<lambda>(k, v) m. dict_append m (set v) k) (neighbor_dict sub) []).
      ks \<noteq> [] \<and> (\<forall>k \<in> set ks. \<exists>vs. (k, vs) \<in> set (neighbor_dict sub) \<and> set vs = S)"
proof -
  have "\<forall>(a, b) \<in> set (neighbor_dict sub). \<exists>vs. (a, vs) \<in> set (neighbor_dict sub) \<and> set vs = set b"
    by auto
  from fold_dict_append_pairs [where m = "[]" and f = set and xs = "neighbor_dict sub"
      and P = "\<lambda>S k. \<exists>vs. (k, vs) \<in> set (neighbor_dict sub) \<and> set vs = S", OF _ this]
  show ?thesis by simp
qed

lemma neighbor_buckets_proper:
  assumes "xb \<in> set (neighbor_buckets sub)"
  shows "length (filter (\<lambda>v. v \<in> set xb) (vertices sub)) < length (vertices sub)"
proof -
  from assms obtain S where S: "(S, xb) \<in> set (fold (\<lambda>(k, v) m. dict_append m (set v) k) (neighbor_dict sub) [])"
    by (auto simp: neighbor_buckets_def)
  with neighbor_buckets_inv [of sub] have ne: "xb \<noteq> []"
    and all: "\<forall>k \<in> set xb. \<exists>vs. (k, vs) \<in> set (neighbor_dict sub) \<and> set vs = S" by auto
  from ne obtain k where k: "k \<in> set xb" by (cases xb) auto
  with all obtain vs where vs: "(k, vs) \<in> set (neighbor_dict sub)" "set vs = S" by blast
  with neighbor_dict_inv [of sub] have "vs \<noteq> []" "\<forall>x \<in> set vs. has_edge sub x k" by auto
  then obtain u where u: "u \<in> S" "has_edge sub u k" using vs(2) by (cases vs) auto
  then have uv: "u \<in> set (vertices sub)" by (simp add: has_edge_def)
  have "u \<notin> set xb"
  proof
    assume "u \<in> set xb"
    with all obtain vs' where "(u, vs') \<in> set (neighbor_dict sub)" "set vs' = S" by blast
    with neighbor_dict_inv [of sub] u(1) have "has_edge sub u u" by auto
    then show False by (simp add: has_edge_def)
  qed
  with uv show ?thesis by (auto intro: length_filter_less)
qed

text \<open>
  \<^verbatim>\<open>habib_maurer_algorithm\<close>, in the order of the source: the directed graph, the orders 0
  and 1, the graph that is not connected, then the complement. \<^verbatim>\<open>g_classes[vertex_set]\<close>
  raises \<^verbatim>\<open>KeyError\<close> when no class has the whole vertex set as its key.
\<close>

function habib_maurer_algorithm :: "graph \<Rightarrow> gclasses option \<Rightarrow> error + pyval" where
  "habib_maurer_algorithm g g_classes =
     (if directed g then Inl ValueError
      else if order g = 0 then Inr create_prime_node
      else if order g = 1 then Inr (create_normal_node (hd (vertices g)))
      else if \<not> is_connected g then
        (case traverse (\<lambda>sg. habib_maurer_algorithm (subgraph g sg) g_classes)
                (connected_components g) of
           Inl e \<Rightarrow> Inl e
         | Inr cs \<Rightarrow> Inr (PNode (PType PARALLEL) cs))
      else
        (let g_comp = complement g in
         if is_connected g_comp then
           (let g_classes' = (case g_classes of None \<Rightarrow> gamma_classes g | Some c \<Rightarrow> c) in
            case map_of g_classes' (set (vertices g)) of
              None \<Rightarrow> Inl KeyError
            | Some es \<Rightarrow>
                (case traverse (\<lambda>sg. habib_maurer_algorithm (subgraph g sg) (Some g_classes'))
                        (neighbor_buckets (subgraph_edges g es)) of
                   Inl e \<Rightarrow> Inl e
                 | Inr cs \<Rightarrow> Inr (PNode (PType PRIME) cs)))
         else
           (case traverse (\<lambda>sg. habib_maurer_algorithm (subgraph g sg) g_classes)
                   (connected_components g_comp) of
              Inl e \<Rightarrow> Inl e
            | Inr cs \<Rightarrow> Inr (PNode (PType SERIES) cs))))"
  by pat_completeness auto
termination
proof (relation "measure (\<lambda>(g, c). order g)", goal_cases)
  case 1
  show ?case by simp
next
  case (2 g g_classes x)
  then show ?case
    using cc_loop_proper [of x g "vertices g"]
    by (simp add: order_def subgraph_def is_connected_def connected_components_def)
next
  case (3 g g_classes x xa x2 xb)
  then show ?case
    using neighbor_buckets_proper [of xb "subgraph_edges g x2"]
    by (simp add: order_def subgraph_def subgraph_edges_def)
next
  case (4 g g_classes x xa)
  then show ?case
    using cc_loop_proper [of xa "complement g" "vertices g"]
    by (simp add: order_def subgraph_def is_connected_def connected_components_def complement_def)
qed

declare habib_maurer_algorithm.simps [simp del]

section \<open>The intrusive tree of the linear-time algorithm\<close>

text \<open>
  The classes \<^verbatim>\<open>_TedderTreeNode\<close>, \<^verbatim>\<open>_TedderMDNode\<close>, \<^verbatim>\<open>_TedderMDLeafNode\<close>,
  \<^verbatim>\<open>_TedderFactPermElement\<close> and \<^verbatim>\<open>_TedderSubProblem\<close> are objects linked by
  references and mutated in place. The model is a store: a list of objects, a reference
  being an index into it. Every object carries the fields of all five classes and the tag
  \<open>cls\<close> of its own class; a field that the class does not have keeps its default.
\<close>

datatype NodeSplit = LEFT_SPLIT | RIGHT_SPLIT | BOTH_SPLIT | NO_SPLIT

datatype tclass = TreeNode | MDNode | MDLeafNode | FactPermElement | SubProblem

type_synonym ref = nat

record tnode =
  cls :: tclass
  parent :: "ref option"
  first_child :: "ref option"
  left_sibling :: "ref option"
  right_sibling :: "ref option"
  num_children :: int
  type :: NodeType
  comp_number :: int
  tree_number :: int
  num_marks :: int
  split_type :: NodeSplit
  alpha :: "ref list"
  neighbors :: "ref list"
  visited :: bool
  vertex :: pyval
  index :: int
  mu :: "ref option"
  has_right_comp_fragment :: bool
  has_left_co_comp_fragment :: bool
  has_right_layer_neighbor :: bool
  connected :: bool
  active :: bool
  pivot :: "ref option"

type_synonym store = "tnode list"

text \<open>The constructors' defaults, for an object of class \<open>c\<close>.\<close>

definition new_node :: "tclass \<Rightarrow> tnode" where
  "new_node c =
     \<lparr> cls = c, parent = None, first_child = None, left_sibling = None,
       right_sibling = None, num_children = 0, type = PRIME, comp_number = - 1,
       tree_number = - 1, num_marks = 0, split_type = NO_SPLIT, alpha = [],
       neighbors = [], visited = False, vertex = PNone, index = - 1, mu = None,
       has_right_comp_fragment = False, has_left_co_comp_fragment = False,
       has_right_layer_neighbor = False, connected = False, active = False,
       pivot = None \<rparr>"

definition is_md :: "tnode \<Rightarrow> bool" where
  "is_md n \<longleftrightarrow> cls n = MDNode \<or> cls n = MDLeafNode"

text \<open>
  \<^verbatim>\<open>set_comp_number_for_subtree\<close>: the node first, then each child's subtree along the
  chain of right siblings. The recursion follows references, so it takes fuel; a store
  whose references form a cycle exhausts any fuel. The method belongs to
  \<^verbatim>\<open>_TedderMDNode\<close>: on an object of another class the call raises \<^verbatim>\<open>AttributeError\<close>.
\<close>

fun set_comp_number_for_subtree :: "nat \<Rightarrow> ref \<Rightarrow> int \<Rightarrow> store \<Rightarrow> error + store"
and set_comp_number_for_children :: "nat \<Rightarrow> ref option \<Rightarrow> int \<Rightarrow> store \<Rightarrow> error + store"
where
  "set_comp_number_for_subtree 0 n c h = Inl OutOfFuel"
| "set_comp_number_for_subtree (Suc k) n c h =
     (if \<not> is_md (h ! n) then Inl AttributeError
      else set_comp_number_for_children k (first_child (h ! n)) c
             (h[n := (h ! n)\<lparr>comp_number := c\<rparr>]))"
| "set_comp_number_for_children 0 cur c h = Inl OutOfFuel"
| "set_comp_number_for_children (Suc k) None c h = Inr h"
| "set_comp_number_for_children (Suc k) (Some cur) c h =
     (case set_comp_number_for_subtree k cur c h of
        Inl e \<Rightarrow> Inl e
      | Inr h' \<Rightarrow> set_comp_number_for_children k (right_sibling (h' ! cur)) c h')"

text \<open>
  The loop of \<^verbatim>\<open>number_comps\<close> for a node whose type is \<^verbatim>\<open>by_type\<close>: each child's
  subtree gets the current number, which then goes up by one. It returns the number
  reached.
\<close>

fun number_comps_children ::
  "nat \<Rightarrow> ref option \<Rightarrow> int \<Rightarrow> store \<Rightarrow> error + (int \<times> store)"
where
  "number_comps_children 0 cur cnum h = Inl OutOfFuel"
| "number_comps_children (Suc k) None cnum h = Inr (cnum, h)"
| "number_comps_children (Suc k) (Some cur) cnum h =
     (case set_comp_number_for_subtree k cur cnum h of
        Inl e \<Rightarrow> Inl e
      | Inr h' \<Rightarrow> number_comps_children k (right_sibling (h' ! cur)) (cnum + 1) h')"

text \<open>
  \<^verbatim>\<open>number_comps\<close>: \<open>orig\<close> is \<^verbatim>\<open>orig_comp_number\<close>, the number passed in, and the
  result is \<^verbatim>\<open>comp_number - orig_comp_number\<close>. In the \<^verbatim>\<open>else\<close> branch the source
  numbers the subtree and leaves \<^verbatim>\<open>comp_number\<close> as it was.
\<close>

definition number_comps ::
  "nat \<Rightarrow> ref \<Rightarrow> int \<Rightarrow> NodeType \<Rightarrow> store \<Rightarrow> error + (int \<times> store)"
where
  "number_comps fuel n cnum by_type h =
     (let orig = cnum in
      if \<not> is_md (h ! n) then Inl AttributeError
      else if type (h ! n) = by_type then
        (case number_comps_children fuel (first_child (h ! n)) cnum h of
           Inl e \<Rightarrow> Inl e
         | Inr (cnum', h') \<Rightarrow> Inr (cnum' - orig, h'))
      else
        (case set_comp_number_for_subtree fuel n cnum h of
           Inl e \<Rightarrow> Inl e
         | Inr h' \<Rightarrow> Inr (cnum - orig, h')))"

text \<open>A leaf for vertex \<open>v\<close>, as \<^verbatim>\<open>_TedderMDLeafNode(v)\<close> builds it.\<close>

definition new_leaf :: "pyval \<Rightarrow> tnode" where
  "new_leaf v = (new_node MDLeafNode)\<lparr>vertex := v\<rparr>"

section \<open>Results\<close>

subsection \<open>Serialisation round trip\<close>

text \<open>
  Claim C1: decoding the encoding of a valid decomposition tree gives an equivalent tree.
  The code does otherwise. \<^verbatim>\<open>tree_to_nested_tuple\<close> writes an internal node as the pair
  \<^verbatim>\<open>(type, [children])\<close>, while \<^verbatim>\<open>nested_tuple_to_tree\<close> reads the children from the
  components \<^verbatim>\<open>nest[1:]\<close> of the tuple, so it finds one component, the list, and makes it
  the vertex of a single leaf. For the decomposition tree of the complete graph on the
  vertices 1 and 2 the decoded tree has one child where the tree has two, and
  \<^verbatim>\<open>equivalent_trees\<close> returns \<^verbatim>\<open>False\<close> in both directions.
\<close>

theorem round_trip_series_pair:
  "tree_to_nested_tuple
     (PNode (PType SERIES) [create_normal_node (PInt 1), create_normal_node (PInt 2)])
     = Inr (PTuple [PType SERIES, PList [PInt 1, PInt 2]])
   \<and> round_trip
     (PNode (PType SERIES) [create_normal_node (PInt 1), create_normal_node (PInt 2)])
     = Inr (PNode (PType SERIES) [create_normal_node (PList [PInt 1, PInt 2])])
   \<and> equivalent_trees
       (PNode (PType SERIES) [create_normal_node (PList [PInt 1, PInt 2])])
       (PNode (PType SERIES) [create_normal_node (PInt 1), create_normal_node (PInt 2)])
     = Inr False
   \<and> equivalent_trees
       (PNode (PType SERIES) [create_normal_node (PInt 1), create_normal_node (PInt 2)])
       (PNode (PType SERIES) [create_normal_node (PList [PInt 1, PInt 2])])
     = Inr False"
  by (simp add: round_trip_def create_normal_node_def)

subsection \<open>The leaves of the reference decomposition\<close>

lemma traverse_list_all2:
  "traverse f xs = Inr ys \<Longrightarrow> list_all2 (\<lambda>x y. f x = Inr y) xs ys"
  by (induction xs arbitrary: ys) (auto split: sum.splits)

lemma traverse_Inr_iff:
  "traverse f xs = Inr ys \<longleftrightarrow> list_all2 (\<lambda>x y. f x = Inr y) xs ys"
proof
  assume "list_all2 (\<lambda>x y. f x = Inr y) xs ys"
  then show "traverse f xs = Inr ys"
    by (induction rule: list_all2_induct) auto
qed (rule traverse_list_all2)

lemma cc_loop_mset: "mset (concat (cc_loop g vs)) = mset vs"
proof (induction g vs rule: cc_loop.induct)
  case (1 g)
  show ?case by simp
next
  case (2 g v vs)
  have "mset (filter (reachable g v) vs) + mset (filter (\<lambda>u. \<not> reachable g v u) vs) = mset vs"
    using multiset_partition [of "mset vs" "reachable g v"] by simp
  with 2 show ?case by (simp add: ac_simps)
qed

lemma filter_part_mset:
  assumes "distinct V" and "mset (concat cs) = mset V" and "c \<in> set cs"
  shows "mset (filter (\<lambda>v. v \<in> set c) V) = mset c"
proof -
  from assms(1,2) have dc: "distinct (concat cs)"
    by (metis mset_eq_imp_distinct_iff)
  with assms(3) have "distinct c" by (simp add: distinct_concat_iff)
  moreover from assms(2) have "set (concat cs) = set V" by (rule mset_eq_setD)
  with assms(3) have "set c \<subseteq> set V" by auto
  then have "set (filter (\<lambda>v. v \<in> set c) V) = set c" by auto
  moreover from assms(1) have "distinct (filter (\<lambda>v. v \<in> set c) V)" by simp
  ultimately show ?thesis by (metis set_eq_iff_mset_eq_distinct)
qed

lemma sum_parts_mset:
  assumes "distinct V" and "mset (concat cs) = mset V"
  shows "(\<Sum>c \<leftarrow> cs. mset (filter (\<lambda>v. v \<in> set c) V)) = mset V"
proof -
  have "(\<Sum>c \<leftarrow> cs. mset (filter (\<lambda>v. v \<in> set c) V)) = (\<Sum>c \<leftarrow> cs. mset c)"
    by (rule arg_cong [where f = sum_list], rule map_cong [OF refl])
       (rule filter_part_mset [OF assms])
  also have "\<dots> = mset (concat cs)" by (induction cs) auto
  finally show ?thesis using assms(2) by simp
qed

lemma get_vertices_children:
  assumes "list_all2 (\<lambda>sg t. \<exists>vs. get_vertices t = Inr vs \<and> mset vs = M sg) sgs cs"
  shows "\<exists>vss. traverse get_vertices cs = Inr vss \<and> mset (concat vss) = (\<Sum>sg \<leftarrow> sgs. M sg)"
  using assms by (induction rule: list_all2_induct) auto

lemma dict_append_keys:
  "map fst (dict_append m k v) = (if k \<in> set (map fst m) then map fst m else map fst m @ [k])"
  by (induction m k v rule: dict_append.induct) auto

lemma dict_append_values:
  "mset (concat (map snd (dict_append m k v))) = add_mset v (mset (concat (map snd m)))"
  by (induction m k v rule: dict_append.induct) auto

lemma fold_dict_append_keys_inner:
  "distinct (map fst m) \<Longrightarrow>
   distinct (map fst (fold (\<lambda>k m'. dict_append m' k v) ks m))
   \<and> set (map fst (fold (\<lambda>k m'. dict_append m' k v) ks m)) = set (map fst m) \<union> set ks"
proof (induction ks arbitrary: m)
  case Nil
  then show ?case by simp
next
  case (Cons k ks)
  have d: "distinct (map fst (dict_append m k v))"
    using Cons.prems by (simp add: dict_append_keys)
  have s: "set (map fst (dict_append m k v)) = insert k (set (map fst m))"
    by (auto simp: dict_append_keys)
  from Cons.IH [OF d] s show ?case by auto
qed

lemma neighbor_dict_keys_gen:
  "distinct (map fst m) \<Longrightarrow>
   distinct (map fst (fold (\<lambda>v m. fold (\<lambda>k m'. dict_append m' k v) (f v) m) xs m))
   \<and> set (map fst (fold (\<lambda>v m. fold (\<lambda>k m'. dict_append m' k v) (f v) m) xs m))
       = set (map fst m) \<union> (\<Union>v \<in> set xs. set (f v))"
proof (induction xs arbitrary: m)
  case Nil
  then show ?case by simp
next
  case (Cons x xs)
  from fold_dict_append_keys_inner [OF Cons.prems, of x "f x"]
  have d: "distinct (map fst (fold (\<lambda>k m'. dict_append m' k x) (f x) m))"
    and s: "set (map fst (fold (\<lambda>k m'. dict_append m' k x) (f x) m)) = set (map fst m) \<union> set (f x)"
    by simp_all
  from Cons.IH [OF d] s show ?case by auto
qed

lemma neighbor_dict_keys:
  "distinct (map fst (neighbor_dict sub))"
  "set (map fst (neighbor_dict sub)) = (\<Union>v \<in> set (vertices sub). set (neighbors_of sub v))"
  using neighbor_dict_keys_gen [of "[]" "neighbors_of sub" "vertices sub"]
  by (simp_all add: neighbor_dict_def)

lemma fold_buckets_mset:
  "mset (concat (map snd (fold (\<lambda>(k, v) m. dict_append m (f v) k) xs m)))
     = mset (map fst xs) + mset (concat (map snd m))"
proof (induction xs arbitrary: m)
  case Nil
  show ?case by simp
next
  case (Cons x xs)
  obtain a b where x: "x = (a, b)" by (cases x)
  show ?case by (simp add: x Cons.IH dict_append_values)
qed

lemma neighbor_buckets_mset:
  "mset (concat (neighbor_buckets sub)) = mset (map fst (neighbor_dict sub))"
  by (simp add: neighbor_buckets_def fold_buckets_mset)

definition edge_ok :: "graph \<Rightarrow> pyval set \<Rightarrow> bool" where
  "edge_ok g e \<longleftrightarrow> (\<exists>u v. e = {u, v} \<and> has_edge g u v)"

lemma edge_iterator_ok: "e \<in> set (edge_iterator g) \<Longrightarrow> edge_ok g e"
  by (auto simp: edge_iterator_def edge_ok_def)

lemma ds_union_inv:
  assumes "\<forall>p \<in> set ps. \<forall>e \<in> set p. Q e"
  shows "\<forall>p \<in> set (ds_union ps a b). \<forall>e \<in> set p. Q e"
proof (cases "find (\<lambda>p. a \<in> set p) ps")
  case None
  then show ?thesis using assms by (simp add: ds_union_def)
next
  case (Some pa)
  note pa = this
  show ?thesis
  proof (cases "find (\<lambda>p. b \<in> set p) ps")
    case None
    then show ?thesis using assms pa by (simp add: ds_union_def)
  next
    case (Some pb)
    from pa have "pa \<in> set ps" by (auto simp: find_Some_iff)
    moreover from Some have "pb \<in> set ps" by (auto simp: find_Some_iff)
    ultimately have "\<forall>e \<in> set (pa @ pb). Q e" using assms by auto
    then show ?thesis using assms pa Some by (auto simp: ds_union_def)
  qed
qed

lemma fold_inv:
  assumes "I s" and "\<And>x s. x \<in> set xs \<Longrightarrow> I s \<Longrightarrow> I (f x s)"
  shows "I (fold f xs s)"
  using assms by (induction xs arbitrary: s) auto

lemma gamma_vertex_inv:
  assumes "\<forall>p \<in> set ps. \<forall>e \<in> set p. Q e"
  shows "\<forall>p \<in> set (gamma_vertex g v ps). \<forall>e \<in> set p. Q e"
  unfolding gamma_vertex_def
proof (rule fold_inv [where I = "\<lambda>ps. \<forall>p \<in> set ps. \<forall>e \<in> set p. Q e"], rule assms)
  fix x and s :: "pyval set list list"
  assume s: "\<forall>p \<in> set s. \<forall>e \<in> set p. Q e"
  show "\<forall>p \<in> set (case x of [] \<Rightarrow> s | v1 # rest \<Rightarrow> fold (\<lambda>vi ps'. ds_union ps' {v1, v} {vi, v}) rest s).
          \<forall>e \<in> set p. Q e"
  proof (cases x)
    case Nil
    with s show ?thesis by simp
  next
    case (Cons v1 rest)
    have "\<forall>p \<in> set (fold (\<lambda>vi ps'. ds_union ps' {v1, v} {vi, v}) rest s). \<forall>e \<in> set p. Q e"
      by (rule fold_inv [where I = "\<lambda>ps. \<forall>p \<in> set ps. \<forall>e \<in> set p. Q e"], rule s)
         (rule ds_union_inv)
    with Cons show ?thesis by simp
  qed
qed

lemma update_dict_inv:
  assumes "\<forall>(k, v) \<in> set m. R k v" and "R k v"
  shows "\<forall>(k, v) \<in> set (update_dict k v m). R k v"
  using assms by (fastforce simp: update_dict_def split: if_splits)

definition classes_ok :: "graph \<Rightarrow> gclasses \<Rightarrow> bool" where
  "classes_ok g c \<longleftrightarrow>
     (\<forall>(K, es) \<in> set c. K = \<Union> (set es) \<and>
        (\<forall>e \<in> set es. \<exists>u v. e = {u, v} \<and>
           (u \<in> set (vertices g) \<longrightarrow> v \<in> set (vertices g) \<longrightarrow> has_edge g u v)))"

lemma gamma_classes_ok: "classes_ok g (gamma_classes g)"
proof -
  define pieces where
    "pieces = fold (gamma_vertex g) (vertices g) (map (\<lambda>e. [e]) (edge_iterator g))"
  have p: "\<forall>p \<in> set pieces. \<forall>e \<in> set p. edge_ok g e"
    unfolding pieces_def
    by (rule fold_inv [where I = "\<lambda>ps. \<forall>p \<in> set ps. \<forall>e \<in> set p. edge_ok g e"])
       (auto simp: edge_iterator_ok intro: gamma_vertex_inv [rule_format])
  let ?R = "\<lambda>K es. K = \<Union> (set es) \<and> (\<forall>e \<in> set es. edge_ok g e)"
  have "\<forall>(K, es) \<in> set (fold (\<lambda>loe m. update_dict (\<Union> (set loe)) loe m) pieces []). ?R K es"
  proof (rule fold_inv [where I = "\<lambda>m. \<forall>(K, es) \<in> set m. ?R K es"])
    show "\<forall>(K, es) \<in> set []. ?R K es" by simp
  next
    fix x and s :: gclasses
    assume "x \<in> set pieces" and "\<forall>(K, es) \<in> set s. ?R K es"
    with p show "\<forall>(K, es) \<in> set (update_dict (\<Union> (set x)) x s). ?R K es"
      by (intro update_dict_inv) auto
  qed
  then show ?thesis
    unfolding classes_ok_def gamma_classes_def Let_def pieces_def [symmetric] edge_ok_def
    by fast
qed

lemma classes_ok_subgraph:
  assumes "classes_ok g c"
  shows "classes_ok (subgraph g sg) c"
  unfolding classes_ok_def
proof (intro ballI, clarify, intro conjI ballI)
  fix K es
  assume "(K, es) \<in> set c"
  with assms show "K = \<Union> (set es)" by (auto simp: classes_ok_def)
next
  fix K es e
  assume "(K, es) \<in> set c" and "e \<in> set es"
  with assms obtain u v where e: "e = {u, v}"
    and uv: "u \<in> set (vertices g) \<longrightarrow> v \<in> set (vertices g) \<longrightarrow> has_edge g u v"
    unfolding classes_ok_def by fast
  have "u \<in> set (vertices (subgraph g sg)) \<longrightarrow> v \<in> set (vertices (subgraph g sg))
        \<longrightarrow> has_edge (subgraph g sg) u v"
    using uv by (auto simp: has_edge_def subgraph_def)
  with e show "\<exists>u v. e = {u, v} \<and>
      (u \<in> set (vertices (subgraph g sg)) \<longrightarrow> v \<in> set (vertices (subgraph g sg))
        \<longrightarrow> has_edge (subgraph g sg) u v)"
    by blast
qed

lemma has_edge_sym: "has_edge g u v \<Longrightarrow> has_edge g v u"
  unfolding has_edge_def by blast

lemma has_edge_subgraph_edges:
  assumes "has_edge g u v" and "{u, v} \<in> set es"
  shows "has_edge (subgraph_edges g es) u v"
proof -
  from assms(2) have "{v, u} \<in> set es" by (simp add: insert_commute)
  with assms show ?thesis
    unfolding has_edge_def subgraph_edges_def by auto
qed

lemma spanning_class_keys:
  assumes "classes_ok g c" and "map_of c (set (vertices g)) = Some es"
  shows "set (map fst (neighbor_dict (subgraph_edges g es))) = set (vertices g)"
proof -
  define sub where "sub = subgraph_edges g es"
  from assms(2) have mem: "(set (vertices g), es) \<in> set c" by (rule map_of_SomeD)
  from assms(1) have "\<forall>x \<in> set c. case x of (K, es) \<Rightarrow> K = \<Union> (set es) \<and>
        (\<forall>e \<in> set es. \<exists>u v. e = {u, v} \<and>
           (u \<in> set (vertices g) \<longrightarrow> v \<in> set (vertices g) \<longrightarrow> has_edge g u v))"
    unfolding classes_ok_def .
  from bspec [OF this mem]
  have both: "set (vertices g) = \<Union> (set es) \<and>
        (\<forall>e \<in> set es. \<exists>u v. e = {u, v} \<and>
           (u \<in> set (vertices g) \<longrightarrow> v \<in> set (vertices g) \<longrightarrow> has_edge g u v))"
    unfolding prod.case .
  from both have un: "set (vertices g) = \<Union> (set es)" by (rule conjunct1)
  from both have ed: "\<And>e. e \<in> set es \<Longrightarrow> \<exists>u v. e = {u, v} \<and>
           (u \<in> set (vertices g) \<longrightarrow> v \<in> set (vertices g) \<longrightarrow> has_edge g u v)"
    by (rule conjunct2 [THEN bspec])
  have keys: "set (map fst (neighbor_dict sub)) = (\<Union>v \<in> set (vertices sub). set (neighbors_of sub v))"
    by (rule neighbor_dict_keys)
  have vs: "vertices sub = vertices g" by (simp add: sub_def subgraph_edges_def)
  have nb: "\<And>x y. y \<in> set (neighbors_of sub x) \<longleftrightarrow> has_edge sub x y"
    unfolding neighbors_of_def has_edge_def by auto
  have "set (map fst (neighbor_dict sub)) = set (vertices g)"
  proof (rule set_eqI, rule iffI)
    fix w
    assume "w \<in> set (map fst (neighbor_dict sub))"
    with keys obtain x where "w \<in> set (neighbors_of sub x)" by blast
    then have "has_edge sub x w" by (simp add: nb)
    then show "w \<in> set (vertices g)" unfolding has_edge_def vs by simp
  next
    fix w
    assume w: "w \<in> set (vertices g)"
    with un obtain e where e: "e \<in> set es" "w \<in> e" by blast
    from ed [OF e(1)] obtain u v where uv: "e = {u, v}"
      "u \<in> set (vertices g) \<longrightarrow> v \<in> set (vertices g) \<longrightarrow> has_edge g u v" by blast
    from uv(1) e(1) have "u \<in> \<Union> (set es)" "v \<in> \<Union> (set es)" by blast+
    with un have "u \<in> set (vertices g)" "v \<in> set (vertices g)" by simp_all
    with uv(2) have he: "has_edge g u v" by simp
    from e(1) uv(1) have "{u, v} \<in> set es" by simp
    with he have h1: "has_edge sub u v" unfolding sub_def by (rule has_edge_subgraph_edges)
    then have h2: "has_edge sub v u" by (rule has_edge_sym)
    from h1 have uin: "u \<in> set (vertices sub)" "v \<in> set (vertices sub)"
      unfolding has_edge_def by simp_all
    from e(2) uv(1) have "w = u \<or> w = v" by simp
    then have "\<exists>x \<in> set (vertices sub). w \<in> set (neighbors_of sub x)"
    proof
      assume "w = u"
      with h2 uin show ?thesis by (auto simp: nb)
    next
      assume "w = v"
      with h1 uin show ?thesis by (auto simp: nb)
    qed
    with keys show "w \<in> set (map fst (neighbor_dict sub))" by blast
  qed
  then show ?thesis by (simp add: sub_def)
qed

lemma spanning_class_buckets:
  assumes "classes_ok g c" and "map_of c (set (vertices g)) = Some es" and "distinct (vertices g)"
  shows "mset (concat (neighbor_buckets (subgraph_edges g es))) = mset (vertices g)"
proof -
  have "mset (map fst (neighbor_dict (subgraph_edges g es))) = mset (vertices g)"
    using spanning_class_keys [OF assms(1,2)] neighbor_dict_keys(1) [of "subgraph_edges g es"] assms(3)
    by (metis set_eq_iff_mset_eq_distinct)
  then show ?thesis by (simp add: neighbor_buckets_mset)
qed

definition cache_ok :: "graph \<Rightarrow> gclasses option \<Rightarrow> bool" where
  "cache_ok g gc \<longleftrightarrow> (case gc of None \<Rightarrow> True | Some c \<Rightarrow> classes_ok g c)"

lemma cache_ok_subgraph: "cache_ok g gc \<Longrightarrow> cache_ok (subgraph g sg) gc"
  by (cases gc) (simp_all add: cache_ok_def classes_ok_subgraph)

lemma distinct_subgraph: "distinct (vertices g) \<Longrightarrow> distinct (vertices (subgraph g sg))"
  by (simp add: subgraph_def)

lemma children_vertices:
  assumes tr: "traverse (\<lambda>sg. habib_maurer_algorithm (subgraph g sg) gc') sgs = Inr cs"
      and ih: "\<And>sg t. sg \<in> set sgs \<Longrightarrow> habib_maurer_algorithm (subgraph g sg) gc' = Inr t \<Longrightarrow>
                 \<exists>vs. get_vertices t = Inr vs \<and> mset vs = mset (vertices (subgraph g sg))"
      and part: "mset (concat sgs) = mset (vertices g)" and d: "distinct (vertices g)"
      and ty: "ty \<noteq> NORMAL"
  shows "\<exists>vs. get_vertices (PNode (PType ty) cs) = Inr vs \<and> mset vs = mset (vertices g)"
proof -
  from tr have "list_all2 (\<lambda>sg t. habib_maurer_algorithm (subgraph g sg) gc' = Inr t) sgs cs"
    by (rule traverse_list_all2)
  then have "list_all2 (\<lambda>sg t. \<exists>vs. get_vertices t = Inr vs
               \<and> mset vs = mset (filter (\<lambda>v. v \<in> set sg) (vertices g))) sgs cs"
  proof (rule list.rel_mono_strong)
    fix sg t
    assume "sg \<in> set sgs" and "t \<in> set cs" and "habib_maurer_algorithm (subgraph g sg) gc' = Inr t"
    from ih [OF this(1,3)]
    show "\<exists>vs. get_vertices t = Inr vs \<and> mset vs = mset (filter (\<lambda>v. v \<in> set sg) (vertices g))"
      by (simp add: subgraph_def)
  qed
  from get_vertices_children [OF this]
  obtain vss where vss: "traverse get_vertices cs = Inr vss"
    "mset (concat vss) = (\<Sum>sg \<leftarrow> sgs. mset (filter (\<lambda>v. v \<in> set sg) (vertices g)))"
    by blast
  from sum_parts_mset [OF d part] vss(2) have "mset (concat vss) = mset (vertices g)" by simp
  with vss(1) ty show ?thesis by simp
qed

lemma hm_vertices:
  assumes "distinct (vertices g)" and "cache_ok g gc"
      and "habib_maurer_algorithm g gc = Inr t"
  shows "\<exists>vs. get_vertices t = Inr vs \<and> mset vs = mset (vertices g)"
  using assms
proof (induction g gc arbitrary: t rule: habib_maurer_algorithm.induct)
  case (1 g gc)
  note d = \<open>distinct (vertices g)\<close> and ok = \<open>cache_ok g gc\<close>
  note res = \<open>habib_maurer_algorithm g gc = Inr t\<close>
  note eq = habib_maurer_algorithm.simps [of g gc]
  from res eq have nd: "\<not> directed g" by (auto split: if_splits)
  show ?case
  proof (cases "order g = 0")
    case True
    with res eq nd have "t = create_prime_node" by simp
    with True show ?thesis by (simp add: create_prime_node_def order_def)
  next
    case n0: False
    show ?thesis
    proof (cases "order g = 1")
      case True
      from True obtain v where v: "vertices g = [v]"
        by (cases "vertices g") (simp_all add: order_def)
      from True res eq nd have "t = create_normal_node (hd (vertices g))" by simp
      with v show ?thesis by (simp add: create_normal_node_def)
    next
      case n1: False
      show ?thesis
      proof (cases "is_connected g")
        case False
        with res eq nd n0 n1 obtain cs where
          tr: "traverse (\<lambda>sg. habib_maurer_algorithm (subgraph g sg) gc) (connected_components g) = Inr cs"
          and t: "t = PNode (PType PARALLEL) cs"
          by (auto split: sum.splits)
        have "\<exists>vs. get_vertices (PNode (PType PARALLEL) cs) = Inr vs \<and> mset vs = mset (vertices g)"
        proof (rule children_vertices [OF tr _ _ d])
          fix sg t'
          assume "sg \<in> set (connected_components g)"
            and "habib_maurer_algorithm (subgraph g sg) gc = Inr t'"
          then show "\<exists>vs. get_vertices t' = Inr vs \<and> mset vs = mset (vertices (subgraph g sg))"
            using "1.IH"(1) [OF nd n0 n1 False] d ok
            by (simp add: distinct_subgraph cache_ok_subgraph)
        next
          show "mset (concat (connected_components g)) = mset (vertices g)"
            by (simp add: connected_components_def cc_loop_mset)
        qed simp
        with t show ?thesis by simp
      next
        case conn: True
        show ?thesis
        proof (cases "is_connected (complement g)")
          case False
          with res eq nd n0 n1 conn obtain cs where
            tr: "traverse (\<lambda>sg. habib_maurer_algorithm (subgraph g sg) gc)
                   (connected_components (complement g)) = Inr cs"
            and t: "t = PNode (PType SERIES) cs"
            by (auto simp: Let_def split: sum.splits)
          have "\<exists>vs. get_vertices (PNode (PType SERIES) cs) = Inr vs \<and> mset vs = mset (vertices g)"
          proof (rule children_vertices [OF tr _ _ d])
            fix sg t'
            assume "sg \<in> set (connected_components (complement g))"
              and "habib_maurer_algorithm (subgraph g sg) gc = Inr t'"
            then show "\<exists>vs. get_vertices t' = Inr vs \<and> mset vs = mset (vertices (subgraph g sg))"
              using "1.IH"(3) [OF nd n0 n1 _ refl False] conn d ok
              by (simp add: distinct_subgraph cache_ok_subgraph)
          next
            show "mset (concat (connected_components (complement g))) = mset (vertices g)"
              by (simp add: connected_components_def cc_loop_mset complement_def)
          qed simp
          with t show ?thesis by simp
        next
          case True
          define c where "c = (case gc of None \<Rightarrow> gamma_classes g | Some c \<Rightarrow> c)"
          from res eq nd n0 n1 conn True obtain es cs where
            look: "map_of c (set (vertices g)) = Some es"
            and tr: "traverse (\<lambda>sg. habib_maurer_algorithm (subgraph g sg) (Some c))
                   (neighbor_buckets (subgraph_edges g es)) = Inr cs"
            and t: "t = PNode (PType PRIME) cs"
            by (auto simp: Let_def c_def split: sum.splits option.splits)
          have cok: "classes_ok g c"
            using ok by (cases gc) (simp_all add: c_def cache_ok_def gamma_classes_ok)
          have "\<exists>vs. get_vertices (PNode (PType PRIME) cs) = Inr vs \<and> mset vs = mset (vertices g)"
          proof (rule children_vertices [OF tr _ _ d])
            fix sg t'
            assume "sg \<in> set (neighbor_buckets (subgraph_edges g es))"
              and "habib_maurer_algorithm (subgraph g sg) (Some c) = Inr t'"
            then show "\<exists>vs. get_vertices t' = Inr vs \<and> mset vs = mset (vertices (subgraph g sg))"
              using "1.IH"(2) [OF nd n0 n1 _ refl True c_def look] conn d cok
              by (simp add: distinct_subgraph cache_ok_def classes_ok_subgraph)
          next
            show "mset (concat (neighbor_buckets (subgraph_edges g es))) = mset (vertices g)"
              by (rule spanning_class_buckets [OF cok look d])
          qed simp
          with t show ?thesis by simp
        qed
      qed
    qed
  qed
qed

subsection \<open>Modules and Gamma classes\<close>

text \<open>
  A set of vertices is a module when every vertex outside it is adjacent to all of its
  vertices or to none (spec, ``module test''). Two edges are Gamma related when they share
  a vertex and their other ends are not adjacent; a Gamma class is a class of the
  reflexive and transitive closure of that relation, which is symmetric.
\<close>

definition is_module :: "graph \<Rightarrow> pyval set \<Rightarrow> bool" where
  "is_module g M \<longleftrightarrow>
     M \<subseteq> set (vertices g)
     \<and> (\<forall>x \<in> set (vertices g) - M. (\<forall>u \<in> M. has_edge g x u) \<or> (\<forall>u \<in> M. \<not> has_edge g x u))"

definition gam :: "graph \<Rightarrow> (pyval set \<times> pyval set) set" where
  "gam g = {({u, v}, {u, w}) | u v w. has_edge g u v \<and> has_edge g u w \<and> \<not> has_edge g v w}"

definition gclass :: "graph \<Rightarrow> pyval set \<Rightarrow> pyval set set" where
  "gclass g e = {e'. (e, e') \<in> (gam g)\<^sup>*}"

lemma has_edge_commute: "has_edge g u v = has_edge g v u"
  unfolding has_edge_def by blast

lemma gamI:
  assumes "has_edge g u v" and "has_edge g u w" and "\<not> has_edge g v w"
  shows "({u, v}, {u, w}) \<in> gam g"
  unfolding gam_def using assms by blast

lemma gam_sym: "sym (gam g)"
proof (rule symI)
  fix a b assume "(a, b) \<in> gam g"
  then obtain u v w where ab: "a = {u, v}" "b = {u, w}"
    and h: "has_edge g u v" "has_edge g u w" "\<not> has_edge g v w"
    unfolding gam_def by blast
  from h(3) have "\<not> has_edge g w v" by (simp add: has_edge_commute)
  from gamI [OF h(2) h(1) this] show "(b, a) \<in> gam g" by (simp add: ab)
qed

lemma gam_rtrancl_sym: "(a, b) \<in> (gam g)\<^sup>* \<Longrightarrow> (b, a) \<in> (gam g)\<^sup>*"
  using sym_rtrancl [OF gam_sym, of g] by (rule symD)

lemma gam_edge:
  assumes "(a, b) \<in> gam g"
  shows "edge_ok g a" and "edge_ok g b"
proof -
  from assms obtain u v w where ab: "a = {u, v}" "b = {u, w}"
    and h: "has_edge g u v" "has_edge g u w"
    unfolding gam_def by blast
  from ab(1) h(1) show "edge_ok g a" unfolding edge_ok_def by blast
  from ab(2) h(2) show "edge_ok g b" unfolding edge_ok_def by blast
qed

lemma gclass_refl: "e \<in> gclass g e"
  by (simp add: gclass_def)

lemma gclass_edge:
  assumes "edge_ok g e" and "e' \<in> gclass g e"
  shows "edge_ok g e'"
proof -
  from assms(2) have "(e, e') \<in> (gam g)\<^sup>*" by (simp add: gclass_def)
  then show ?thesis
  proof (cases rule: rtranclE)
    case base
    with assms(1) show ?thesis by simp
  next
    case (step y)
    then show ?thesis by (simp add: gam_edge(2))
  qed
qed

lemma gclass_eq:
  assumes "e' \<in> gclass g e"
  shows "gclass g e' = gclass g e"
proof -
  from assms have fw: "(e, e') \<in> (gam g)\<^sup>*" by (simp add: gclass_def)
  then have bw: "(e', e) \<in> (gam g)\<^sup>*" by (rule gam_rtrancl_sym)
  show ?thesis
  proof (rule set_eqI)
    fix x
    show "x \<in> gclass g e' \<longleftrightarrow> x \<in> gclass g e"
      unfolding gclass_def mem_Collect_eq
      using fw bw by (blast intro: rtrancl_trans)
  qed
qed

lemma gclass_step:
  assumes "has_edge g u v" and "has_edge g u w" and "\<not> has_edge g v w"
      and "{u, v} \<in> gclass g e"
  shows "{u, w} \<in> gclass g e"
proof -
  from assms(4) have "(e, {u, v}) \<in> (gam g)\<^sup>*" by (simp add: gclass_def)
  moreover have "({u, v}, {u, w}) \<in> gam g" by (rule gamI [OF assms(1-3)])
  ultimately have "(e, {u, w}) \<in> (gam g)\<^sup>*" by (rule rtrancl_into_rtrancl)
  then show ?thesis by (simp add: gclass_def)
qed

lemma gclass_induct [consumes 1, case_names base step]:
  assumes "e' \<in> gclass g e"
      and "P e"
      and "\<And>u v w. {u, v} \<in> gclass g e \<Longrightarrow> P {u, v} \<Longrightarrow> has_edge g u v \<Longrightarrow> has_edge g u w
              \<Longrightarrow> \<not> has_edge g v w \<Longrightarrow> P {u, w}"
  shows "P e'"
proof -
  from assms(1) have "(e, e') \<in> (gam g)\<^sup>*" by (simp add: gclass_def)
  then show ?thesis
  proof (induction rule: rtrancl_induct)
    case base
    show ?case by (rule assms(2))
  next
    case (step y z)
    from step(2) obtain u v w where yz: "y = {u, v}" "z = {u, w}"
      and h: "has_edge g u v" "has_edge g u w" "\<not> has_edge g v w"
      unfolding gam_def by blast
    from step(1) have "{u, v} \<in> gclass g e" by (simp add: gclass_def yz)
    from assms(3) [OF this _ h] step(3) show ?case by (simp add: yz)
  qed
qed

lemma class_vertices:
  assumes "edge_ok g e"
  shows "\<Union> (gclass g e) \<subseteq> set (vertices g)"
proof
  fix x assume "x \<in> \<Union> (gclass g e)"
  then obtain e' where e': "e' \<in> gclass g e" "x \<in> e'" by blast
  from gclass_edge [OF assms e'(1)] obtain u v where "e' = {u, v}" "has_edge g u v"
    unfolding edge_ok_def by blast
  with e'(2) show "x \<in> set (vertices g)" unfolding has_edge_def by auto
qed

lemma class_module:
  assumes e: "edge_ok g e"
  shows "is_module g (\<Union> (gclass g e))"
  unfolding is_module_def
proof (intro conjI ballI)
  show "\<Union> (gclass g e) \<subseteq> set (vertices g)" by (rule class_vertices [OF e])
next
  fix x assume "x \<in> set (vertices g) - \<Union> (gclass g e)"
  then have xout: "x \<notin> \<Union> (gclass g e)" by simp
  from e obtain u0 v0 where e0: "e = {u0, v0}" "has_edge g u0 v0"
    unfolding edge_ok_def by blast
  have A: "has_edge g x a \<Longrightarrow> has_edge g x b"
    if "{a, b} \<in> gclass g e" "has_edge g a b" for a b
  proof (rule ccontr)
    assume xa: "has_edge g x a" and nxb: "\<not> has_edge g x b"
    from xa have ax: "has_edge g a x" by (simp add: has_edge_commute)
    from nxb have "\<not> has_edge g b x" by (simp add: has_edge_commute)
    from gclass_step [OF that(2) ax this that(1)] have "{a, x} \<in> gclass g e" .
    with xout show False by blast
  qed
  have B: "\<forall>a \<in> e'. has_edge g x a = has_edge g x u0" if "e' \<in> gclass g e" for e'
    using that
  proof (induction rule: gclass_induct)
    case base
    have "{u0, v0} \<in> gclass g e" "{v0, u0} \<in> gclass g e"
      using gclass_refl [of e g] by (simp_all add: e0 insert_commute)
    from A [OF this(1) e0(2)] A [OF this(2)] e0(2)
    have "has_edge g x v0 = has_edge g x u0" by (auto simp: has_edge_commute)
    then show ?case by (simp add: e0)
  next
    case (step u v w)
    note h = step.hyps
    from gclass_step [OF h(2) h(3) h(4) h(1)] have uw: "{u, w} \<in> gclass g e" .
    then have wu: "{w, u} \<in> gclass g e" by (simp add: insert_commute)
    from h(3) have "has_edge g w u" by (simp add: has_edge_commute)
    from A [OF uw h(3)] A [OF wu this]
    have "has_edge g x w = has_edge g x u" by blast
    with step.IH show ?case by simp
  qed
  show "(\<forall>u \<in> \<Union> (gclass g e). has_edge g x u) \<or> (\<forall>u \<in> \<Union> (gclass g e). \<not> has_edge g x u)"
    using B by blast
qed


lemma triangle:
  assumes bc: "{b, c} \<in> gclass g e"
      and ab: "has_edge g a b" and ac: "has_edge g a c"
      and nab: "{a, b} \<notin> gclass g e" and nac: "{a, c} \<notin> gclass g e"
      and e': "e' \<in> gclass g e"
  shows "\<forall>x \<in> e'. has_edge g a x \<and> {a, x} \<notin> gclass g e"
proof -
  have eq: "gclass g {b, c} = gclass g e" by (rule gclass_eq [OF bc])
  from e' have "e' \<in> gclass g {b, c}" by (simp add: eq)
  then show ?thesis
  proof (induction rule: gclass_induct)
    case base
    show ?case using ab ac nab nac by simp
  next
    case (step u v w)
    note h = step.hyps
    from step.IH have au: "has_edge g a u" and nau: "{a, u} \<notin> gclass g e"
      and av: "has_edge g a v" and nav: "{a, v} \<notin> gclass g e" by simp_all
    from h(1) have uv: "{u, v} \<in> gclass g e" by (simp add: eq)
    from gclass_step [OF h(2) h(3) h(4) uv] have uw: "{u, w} \<in> gclass g e" .
    have aw: "has_edge g a w"
    proof (rule ccontr)
      assume "\<not> has_edge g a w"
      then have nwa: "\<not> has_edge g w a" by (simp add: has_edge_commute)
      from au have ua: "has_edge g u a" by (simp add: has_edge_commute)
      from gclass_step [OF h(3) ua nwa uw] have "{u, a} \<in> gclass g e" .
      with nau show False by (simp add: insert_commute)
    qed
    have naw: "{a, w} \<notin> gclass g e"
    proof
      assume "{a, w} \<in> gclass g e"
      moreover from h(4) have "\<not> has_edge g w v" by (simp add: has_edge_commute)
      ultimately have "{a, v} \<in> gclass g e" using aw av by (intro gclass_step [of g a w v e])
      with nav show False by simp
    qed
    show ?case using au nau aw naw by simp
  qed
qed

lemma triangle_outside:
  assumes "{b, c} \<in> gclass g e"
      and "has_edge g a b" and "has_edge g a c"
      and "{a, b} \<notin> gclass g e" and "{a, c} \<notin> gclass g e"
  shows "a \<notin> \<Union> (gclass g e)"
proof
  assume "a \<in> \<Union> (gclass g e)"
  then obtain e' where e': "e' \<in> gclass g e" "a \<in> e'" by blast
  from triangle [OF assms e'(1)] e'(2) have "has_edge g a a" by blast
  then show False by (simp add: has_edge_def)
qed

lemma edge_ok_at:
  assumes "edge_ok g e" and "a \<in> e"
  obtains s where "e = {a, s}" and "has_edge g a s"
proof -
  from assms(1) obtain u v where uv: "e = {u, v}" "has_edge g u v"
    unfolding edge_ok_def by blast
  from assms(2) uv(1) have "a = u \<or> a = v" by simp
  then show ?thesis
  proof
    assume "a = u"
    with uv that show ?thesis by simp
  next
    assume "a = v"
    with uv that [of u] show ?thesis by (simp add: insert_commute has_edge_commute)
  qed
qed

lemma gclass_disjoint:
  assumes "x \<in> gclass g e1" and "x \<in> gclass g e2"
  shows "gclass g e1 = gclass g e2"
  using gclass_eq [OF assms(1)] gclass_eq [OF assms(2)] by simp

lemma class_vertex_sets_differ:
  assumes e1: "edge_ok g e1" and e2: "edge_ok g e2"
      and ne: "gclass g e1 \<noteq> gclass g e2"
  shows "\<Union> (gclass g e1) \<noteq> \<Union> (gclass g e2)"
proof
  assume eq: "\<Union> (gclass g e1) = \<Union> (gclass g e2)"
  from e1 obtain a t where at: "e1 = {a, t}" "has_edge g a t"
    unfolding edge_ok_def by blast
  have atC: "{a, t} \<in> gclass g e1" using gclass_refl [of e1 g] by (simp add: at)
  then have "a \<in> \<Union> (gclass g e1)" by blast
  with eq obtain e' where e': "e' \<in> gclass g e2" "a \<in> e'" by blast
  from gclass_edge [OF e2 e'(1)] e'(2) obtain s where s: "e' = {a, s}" "has_edge g a s"
    by (rule edge_ok_at)
  from e'(1) s(1) have asD: "{a, s} \<in> gclass g e2" by simp
  have disj: "\<And>x. x \<in> gclass g e1 \<Longrightarrow> x \<notin> gclass g e2"
    using gclass_disjoint ne by blast
  have ts: "has_edge g t s"
  proof (rule ccontr)
    assume "\<not> has_edge g t s"
    from gclass_step [OF at(2) s(2) this atC] have "{a, s} \<in> gclass g e1" .
    with disj asD show False by blast
  qed
  show False
  proof (cases "{t, s} \<in> gclass g e1")
    case True
    have "t \<notin> \<Union> (gclass g e2)"
    proof (rule triangle_outside [OF asD])
      show "has_edge g t a" using at(2) by (simp add: has_edge_commute)
      show "has_edge g t s" by (rule ts)
      show "{t, a} \<notin> gclass g e2" using disj [OF atC] by (simp add: insert_commute)
      show "{t, s} \<notin> gclass g e2" using disj [OF True] .
    qed
    moreover from atC have "t \<in> \<Union> (gclass g e1)" by blast
    ultimately show False using eq by simp
  next
    case False
    have "s \<notin> \<Union> (gclass g e1)"
    proof (rule triangle_outside [OF atC])
      show "has_edge g s a" using s(2) by (simp add: has_edge_commute)
      show "has_edge g s t" using ts by (simp add: has_edge_commute)
      show "{s, a} \<notin> gclass g e1" using disj asD by (auto simp: insert_commute)
      show "{s, t} \<notin> gclass g e1" using False by (simp add: insert_commute)
    qed
    moreover from asD have "s \<in> \<Union> (gclass g e2)" by blast
    ultimately show False using eq by simp
  qed
qed

lemma bucket_module:
  assumes e: "edge_ok g e" and span: "\<Union> (gclass g e) = set (vertices g)"
  shows "is_module g {u \<in> set (vertices g). {w. {u, w} \<in> gclass g e} = S}"
proof -
  let ?C = "gclass g e"
  let ?B = "{u \<in> set (vertices g). {w. {u, w} \<in> ?C} = S}"
  have inC: "has_edge g p q" if "{p, q} \<in> ?C" for p q
  proof -
    from gclass_edge [OF e that] have "edge_ok g {p, q}" .
    moreover have "p \<in> {p, q}" by simp
    ultimately obtain q' where "{p, q} = {p, q'}" "has_edge g p q'" by (rule edge_ok_at)
    then show ?thesis by (auto simp: doubleton_eq_iff has_edge_commute)
  qed
  have sub: "{w. {u, w} \<in> ?C} \<subseteq> {w. {x, w} \<in> ?C}"
    if xu: "has_edge g x u" and nxu: "{x, u} \<notin> ?C" for x u
  proof
    fix z assume "z \<in> {w. {u, w} \<in> ?C}"
    then have uz: "{u, z} \<in> ?C" by simp
    then have huz: "has_edge g u z" by (rule inC)
    from xu have ux: "has_edge g u x" by (simp add: has_edge_commute)
    have xz: "has_edge g x z"
    proof (rule ccontr)
      assume "\<not> has_edge g x z"
      then have "\<not> has_edge g z x" by (simp add: has_edge_commute)
      from gclass_step [OF huz ux this uz] nxu show False by (simp add: insert_commute)
    qed
    have "{x, z} \<in> ?C"
    proof (rule ccontr)
      assume "{x, z} \<notin> ?C"
      from triangle_outside [OF uz xu xz nxu this] have "x \<notin> \<Union> ?C" .
      moreover from xu have "x \<in> set (vertices g)" by (simp add: has_edge_def)
      ultimately show False using span by simp
    qed
    then show "z \<in> {w. {x, w} \<in> ?C}" by simp
  qed
  have key: "has_edge g x u'" if x: "x \<in> set (vertices g)" "x \<notin> ?B"
    and u: "u \<in> ?B" and u': "u' \<in> ?B" and xu: "has_edge g x u" for x u u'
  proof (cases "{x, u} \<in> ?C")
    case True
    then have "x \<in> {w. {u, w} \<in> ?C}" by (simp add: insert_commute)
    with u u' have "x \<in> {w. {u', w} \<in> ?C}" by simp
    then have "{u', x} \<in> ?C" by simp
    then have "has_edge g u' x" by (rule inC)
    then show ?thesis by (simp add: has_edge_commute)
  next
    case False
    from xu have ux: "has_edge g u x" by (simp add: has_edge_commute)
    from False have nux: "{u, x} \<notin> ?C" by (simp add: insert_commute)
    from sub [OF xu False] sub [OF ux nux]
    have "{w. {x, w} \<in> ?C} = {w. {u, w} \<in> ?C}" by blast
    with u have "x \<in> ?B" using x(1) by simp
    with x(2) show ?thesis by simp
  qed
  show ?thesis
    unfolding is_module_def
  proof (intro conjI ballI)
    show "?B \<subseteq> set (vertices g)" by blast
  next
    fix x assume "x \<in> set (vertices g) - ?B"
    then have x: "x \<in> set (vertices g)" "x \<notin> ?B" by simp_all
    show "(\<forall>u \<in> ?B. has_edge g x u) \<or> (\<forall>u \<in> ?B. \<not> has_edge g x u)"
      using key [OF x] by blast
  qed
qed

text \<open>
  Induced subgraphs and complements; a class of the subgraph induced by a module is a class
  of the graph. A graph that is connected and whose complement is connected has a class
  that meets every vertex.
\<close>

lemma has_edge_subgraph:
  "has_edge (subgraph g ms) u v \<longleftrightarrow> has_edge g u v \<and> u \<in> set ms \<and> v \<in> set ms"
  unfolding has_edge_def subgraph_def by auto

lemma vertices_subgraph: "set (vertices (subgraph g ms)) = set (vertices g) \<inter> set ms"
  unfolding subgraph_def by auto

lemma has_edge_complement:
  "has_edge (complement g) u v \<longleftrightarrow>
     u \<noteq> v \<and> u \<in> set (vertices g) \<and> v \<in> set (vertices g) \<and> \<not> has_edge g u v"
proof -
  have v: "vertices (complement g) = vertices g" by (simp add: complement_def)
  have e: "(a, b) \<in> set (edges (complement g)) \<longleftrightarrow>
      a \<in> set (vertices g) \<and> b \<in> set (vertices g) \<and> a \<noteq> b \<and> \<not> has_edge g a b" for a b
    unfolding complement_def by auto
  show ?thesis
    unfolding has_edge_def [of "complement g"] v e
    by (auto simp: has_edge_commute)
qed

lemma gclass_cong:
  assumes "\<And>u v. has_edge g u v = has_edge g' u v"
  shows "gclass g e = gclass g' e"
proof -
  have "gam g = gam g'" unfolding gam_def by (simp only: assms)
  then show ?thesis by (simp add: gclass_def)
qed

lemma edge_ok_cong:
  assumes "\<And>u v. has_edge g u v = has_edge g' u v"
  shows "edge_ok g e = edge_ok g' e"
  unfolding edge_ok_def by (simp only: assms)

lemma edge_ok_subgraph:
  "edge_ok (subgraph g ms) e \<longleftrightarrow> edge_ok g e \<and> e \<subseteq> set ms"
  unfolding edge_ok_def has_edge_subgraph by auto

lemma gclass_local:
  assumes md: "is_module g (set ms)" and e: "edge_ok (subgraph g ms) e"
  shows "gclass (subgraph g ms) e = gclass g e"
proof (intro set_eqI iffI)
  fix e' assume "e' \<in> gclass (subgraph g ms) e"
  then show "e' \<in> gclass g e"
  proof (induction rule: gclass_induct)
    case base
    show ?case by (rule gclass_refl)
  next
    case (step u v w)
    note h = step.hyps
    from h(2) have uv: "has_edge g u v" and v: "v \<in> set ms" by (simp_all add: has_edge_subgraph)
    from h(3) have uw: "has_edge g u w" and w: "w \<in> set ms" by (simp_all add: has_edge_subgraph)
    from h(4) v w have "\<not> has_edge g v w" by (simp add: has_edge_subgraph)
    from gclass_step [OF uv uw this step.IH] show ?case .
  qed
next
  fix e' assume "e' \<in> gclass g e"
  then show "e' \<in> gclass (subgraph g ms) e"
  proof (induction rule: gclass_induct)
    case base
    show ?case by (rule gclass_refl)
  next
    case (step u v w)
    note h = step.hyps
    from gclass_edge [OF e step.IH] have "{u, v} \<subseteq> set ms" by (simp add: edge_ok_subgraph)
    then have u: "u \<in> set ms" and v: "v \<in> set ms" by simp_all
    have w: "w \<in> set ms"
    proof (rule ccontr)
      assume "w \<notin> set ms"
      moreover from h(3) have "w \<in> set (vertices g)" by (simp add: has_edge_def)
      ultimately have "(\<forall>m \<in> set ms. has_edge g w m) \<or> (\<forall>m \<in> set ms. \<not> has_edge g w m)"
        using md unfolding is_module_def by blast
      moreover from h(3) have "has_edge g w u" by (simp add: has_edge_commute)
      ultimately have "has_edge g w v" using u v by blast
      with h(4) show False by (simp add: has_edge_commute)
    qed
    from h(2) u v have uv: "has_edge (subgraph g ms) u v" by (simp add: has_edge_subgraph)
    from h(3) u w have uw: "has_edge (subgraph g ms) u w" by (simp add: has_edge_subgraph)
    from h(4) have "\<not> has_edge (subgraph g ms) v w" by (simp add: has_edge_subgraph)
    from gclass_step [OF uv uw this step.IH] show ?case .
  qed
qed

lemma spanning_class_exists:
  assumes conn: "\<And>A. A \<noteq> {} \<Longrightarrow> A \<subset> set (vertices g) \<Longrightarrow>
                   \<exists>u \<in> A. \<exists>w \<in> set (vertices g) - A. has_edge g u w"
      and coconn: "\<And>A. A \<noteq> {} \<Longrightarrow> A \<subset> set (vertices g) \<Longrightarrow>
                   \<exists>u \<in> A. \<exists>w \<in> set (vertices g) - A. \<not> has_edge g u w"
      and two: "v1 \<in> set (vertices g)" "v2 \<in> set (vertices g)" "v1 \<noteq> v2"
  shows "\<exists>e. edge_ok g e \<and> \<Union> (gclass g e) = set (vertices g)"
proof -
  let ?V = "set (vertices g)"
  have "{v1} \<noteq> {}" "{v1} \<subset> ?V" using two by auto
  from conn [OF this] obtain w where "has_edge g v1 w" by blast
  then have ex: "edge_ok g {v1, w}" unfolding edge_ok_def by blast
  have "\<forall>e. edge_ok g e \<longrightarrow> card (\<Union> (gclass g e)) \<le> card ?V"
    by (intro allI impI card_mono class_vertices) simp_all
  then have bound: "\<forall>e. edge_ok g e \<longrightarrow> card (\<Union> (gclass g e)) < Suc (card ?V)"
    by (simp add: less_Suc_eq_le)
  from Lattices_Big.ex_has_greatest_nat [of "edge_ok g" "{v1, w}" "\<lambda>e. card (\<Union> (gclass g e))", OF ex bound]
  obtain e where e: "edge_ok g e"
    and mx: "\<And>e'. edge_ok g e' \<Longrightarrow> card (\<Union> (gclass g e')) \<le> card (\<Union> (gclass g e))"
    by blast
  define M where "M = \<Union> (gclass g e)"
  have MV: "M \<subseteq> ?V" unfolding M_def by (rule class_vertices [OF e])
  then have finM: "finite M" by (rule finite_subset) simp
  have md: "is_module g M" unfolding M_def by (rule class_module [OF e])
  from e obtain u0 v0 where "e = {u0, v0}" unfolding edge_ok_def by blast
  with gclass_refl [of e g] have Mne: "M \<noteq> {}" unfolding M_def by blast
  have uni: "\<forall>m \<in> M. has_edge g x m" if "x \<in> ?V" "x \<notin> M" "has_edge g x m0" "m0 \<in> M" for x m0
    using md that unfolding is_module_def by blast
  have no_cross: False
    if x: "x \<in> ?V" "x \<notin> M" "\<forall>m \<in> M. has_edge g x m"
    and y: "\<forall>m \<in> M. \<not> has_edge g y m" and xy: "has_edge g x y" for x y
  proof -
    let ?D = "gclass g {x, y}"
    from xy have D: "edge_ok g {x, y}" unfolding edge_ok_def by blast
    have xm: "{x, m} \<in> ?D" if "m \<in> M" for m
    proof (rule gclass_step [OF xy _ _ gclass_refl])
      show "has_edge g x m" using x(3) that by simp
      show "\<not> has_edge g y m" using y that by simp
    qed
    have sub: "insert x M \<subseteq> \<Union> ?D"
    proof
      fix z assume "z \<in> insert x M"
      then have "z = x \<or> z \<in> M" by simp
      then show "z \<in> \<Union> ?D"
      proof
        assume "z = x"
        moreover have "{x, y} \<in> ?D" by (rule gclass_refl)
        ultimately show ?thesis by blast
      next
        assume "z \<in> M"
        from xm [OF this] show ?thesis by blast
      qed
    qed
    have fin: "finite (\<Union> ?D)"
      by (rule finite_subset [OF class_vertices [OF D]]) simp
    have "card (insert x M) \<le> card (\<Union> ?D)" by (rule card_mono [OF fin sub])
    moreover have "card (insert x M) = Suc (card M)" using finM x(2) by simp
    moreover from mx [OF D] have "card (\<Union> ?D) \<le> card M" by (simp add: M_def)
    ultimately show False by simp
  qed
  have "M = ?V"
  proof (rule ccontr)
    assume "M \<noteq> ?V"
    with MV have psub: "M \<subset> ?V" by blast
    define X0 where "X0 = {y \<in> ?V - M. \<forall>m \<in> M. \<not> has_edge g y m}"
    show False
    proof (cases "X0 = {}")
      case False
      have "X0 \<subset> ?V" using Mne MV unfolding X0_def by blast
      from conn [OF False this] obtain u w where u: "u \<in> X0"
        and w: "w \<in> ?V" "w \<notin> X0" and uw: "has_edge g u w" by blast
      from u have un: "\<forall>m \<in> M. \<not> has_edge g u m" by (simp add: X0_def)
      with uw have wM: "w \<notin> M" by blast
      with w obtain m0 where m0: "m0 \<in> M" "has_edge g w m0" unfolding X0_def by blast
      from uni [OF w(1) wM m0(2) m0(1)] have "\<forall>m \<in> M. has_edge g w m" .
      moreover from uw have "has_edge g w u" by (simp add: has_edge_commute)
      ultimately show False using no_cross [OF w(1) wM _ un] by blast
    next
      case True
      from coconn [OF Mne psub] obtain u w where u: "u \<in> M"
        and w: "w \<in> ?V" "w \<notin> M" and nuw: "\<not> has_edge g u w" by blast
      from True w obtain m0 where m0: "m0 \<in> M" "has_edge g w m0" unfolding X0_def by blast
      from uni [OF w m0(2) m0(1)] u have "has_edge g w u" by simp
      with nuw show False by (simp add: has_edge_commute)
    qed
  qed
  with e show ?thesis unfolding M_def by blast
qed

lemma reach_sound:
  assumes "set xs \<subseteq> A" and "\<And>x w. x \<in> A \<Longrightarrow> has_edge g x w \<Longrightarrow> w \<in> A"
  shows "set (reach g n xs) \<subseteq> A"
  using assms(1)
proof (induction n arbitrary: xs)
  case 0
  then show ?case by simp
next
  case (Suc n)
  have "set (xs @ filter (\<lambda>w. w \<notin> set xs \<and> (\<exists>x \<in> set xs. has_edge g x w)) (vertices g)) \<subseteq> A"
    using Suc.prems assms(2) by auto
  from Suc.IH [OF this] show ?case by simp
qed

lemma cc_loop_Nil: "cc_loop g vs = [] \<longleftrightarrow> vs = []"
  by (cases vs) simp_all

lemma connected_all_reachable:
  assumes "is_connected g" and "vertices g = v0 # rest" and "x \<in> set (vertices g)"
  shows "reachable g v0 x"
proof -
  from assms(1,2) have "cc_loop g (filter (\<lambda>u. \<not> reachable g v0 u) rest) = []"
    by (simp add: is_connected_def connected_components_def)
  then have "filter (\<lambda>u. \<not> reachable g v0 u) rest = []" by (simp add: cc_loop_Nil)
  then have "\<forall>u \<in> set rest. reachable g v0 u" by (simp add: filter_empty_conv)
  with assms(2,3) reachable_refl [of g v0] show ?thesis by auto
qed

lemma connected_crossing:
  assumes c: "is_connected g" and A: "A \<noteq> {}" "A \<subset> set (vertices g)"
  shows "\<exists>u \<in> A. \<exists>w \<in> set (vertices g) - A. has_edge g u w"
proof (rule ccontr)
  assume no: "\<not> ?thesis"
  from A obtain v0 rest where vs: "vertices g = v0 # rest" by (cases "vertices g") auto
  have clA: "\<And>x w. x \<in> A \<Longrightarrow> has_edge g x w \<Longrightarrow> w \<in> A"
    using no unfolding has_edge_def by blast
  have clB: "\<And>x w. x \<in> set (vertices g) - A \<Longrightarrow> has_edge g x w \<Longrightarrow> w \<in> set (vertices g) - A"
  proof -
    fix x w assume x: "x \<in> set (vertices g) - A" and xw: "has_edge g x w"
    from xw have wx: "has_edge g w x" by (simp add: has_edge_commute)
    from xw have "w \<in> set (vertices g)" by (simp add: has_edge_def)
    moreover have "w \<notin> A" using no wx x by blast
    ultimately show "w \<in> set (vertices g) - A" by simp
  qed
  have all: "\<And>x. x \<in> set (vertices g) \<Longrightarrow> x \<in> set (reach g (order g) [v0])"
    using connected_all_reachable [OF c vs] by (simp add: reachable_def)
  show False
  proof (cases "v0 \<in> A")
    case True
    then have "set [v0] \<subseteq> A" by simp
    from reach_sound [where n = "order g", OF this clA]
    have "set (reach g (order g) [v0]) \<subseteq> A" .
    with all have "set (vertices g) \<subseteq> A" by (meson subsetD subsetI)
    with A(2) show False by blast
  next
    case False
    then have "set [v0] \<subseteq> set (vertices g) - A" by (simp add: vs)
    from reach_sound [where n = "order g", OF this clB]
    have "set (reach g (order g) [v0]) \<subseteq> set (vertices g) - A" .
    with all have "set (vertices g) \<subseteq> set (vertices g) - A" by (meson subsetD subsetI)
    with A show False by blast
  qed
qed

lemma coconnected_crossing:
  assumes c: "is_connected (complement g)" and A: "A \<noteq> {}" "A \<subset> set (vertices g)"
  shows "\<exists>u \<in> A. \<exists>w \<in> set (vertices g) - A. \<not> has_edge g u w"
proof -
  have v: "vertices (complement g) = vertices g" by (simp add: complement_def)
  from connected_crossing [OF c A(1)] A(2)
  obtain u w where "u \<in> A" "w \<in> set (vertices g) - A" "has_edge (complement g) u w"
    unfolding v by blast
  then show ?thesis unfolding has_edge_complement by blast
qed

text \<open>
  \<open>reach\<close> is closed under adjacency after as many rounds as the graph has vertices, so
  the components are the classes of the closure of adjacency, and they are modules.
\<close>

definition adjrel :: "graph \<Rightarrow> (pyval \<times> pyval) set" where
  "adjrel g = {(a, b). has_edge g a b}"

lemma adjrel_sym: "sym (adjrel g)"
  unfolding sym_def adjrel_def by (simp add: has_edge_commute)

lemma adjrel_rtrancl_sym: "(a, b) \<in> (adjrel g)\<^sup>* \<Longrightarrow> (b, a) \<in> (adjrel g)\<^sup>*"
  using sym_rtrancl [OF adjrel_sym, of g] by (rule symD)

lemma reach_stationary:
  assumes "\<forall>x \<in> set xs. \<forall>w. has_edge g x w \<longrightarrow> w \<in> set xs"
  shows "reach g n xs = xs"
proof (induction n)
  case 0
  show ?case by simp
next
  case (Suc n)
  have "filter (\<lambda>w. w \<notin> set xs \<and> (\<exists>x \<in> set xs. has_edge g x w)) (vertices g) = []"
    unfolding filter_empty_conv using assms by blast
  with Suc show ?case by simp
qed

lemma reach_closed:
  assumes "set xs \<subseteq> set (vertices g)" and "card (set (vertices g)) \<le> card (set xs) + n"
  shows "\<forall>x \<in> set (reach g n xs). \<forall>w. has_edge g x w \<longrightarrow> w \<in> set (reach g n xs)"
  using assms
proof (induction n arbitrary: xs)
  case 0
  from 0 have "card (set xs) = card (set (vertices g))"
    using card_mono [of "set (vertices g)" "set xs"] by simp
  with 0(1) have "set xs = set (vertices g)" by (intro card_subset_eq) simp_all
  then show ?case by (simp add: has_edge_def)
next
  case (Suc n)
  define new where "new = filter (\<lambda>w. w \<notin> set xs \<and> (\<exists>x \<in> set xs. has_edge g x w)) (vertices g)"
  have r: "reach g (Suc n) xs = reach g n (xs @ new)" by (simp add: new_def)
  show ?case
  proof (cases "new = []")
    case True
    then have cl: "\<forall>x \<in> set xs. \<forall>w. has_edge g x w \<longrightarrow> w \<in> set xs"
      unfolding new_def filter_empty_conv has_edge_def by blast
    from reach_stationary [OF cl] have "reach g (Suc n) xs = xs" .
    with cl show ?thesis by simp
  next
    case False
    then obtain w where w: "w \<in> set new" by (cases new) auto
    then have wn: "w \<notin> set xs" by (simp add: new_def)
    have sub: "set (xs @ new) \<subseteq> set (vertices g)" using Suc.prems(1) by (auto simp: new_def)
    have "insert w (set xs) \<subseteq> set (xs @ new)" using w by auto
    then have "card (insert w (set xs)) \<le> card (set (xs @ new))" by (intro card_mono) simp_all
    with wn have "Suc (card (set xs)) \<le> card (set (xs @ new))" by simp
    with Suc.prems(2) have "card (set (vertices g)) \<le> card (set (xs @ new)) + n" by simp
    from Suc.IH [OF sub this] show ?thesis unfolding r .
  qed
qed

lemma reachable_step:
  assumes "reachable g v x" and "has_edge g x w"
  shows "reachable g v w"
proof (cases "v \<in> set (vertices g)")
  case True
  then have "set [v] \<subseteq> set (vertices g)" by simp
  moreover have "card (set (vertices g)) \<le> card (set [v]) + order g"
    using card_length [of "vertices g"] by (simp add: order_def)
  ultimately have "\<forall>x \<in> set (reach g (order g) [v]). \<forall>w. has_edge g x w
      \<longrightarrow> w \<in> set (reach g (order g) [v])" by (rule reach_closed)
  with assms show ?thesis unfolding reachable_def by blast
next
  case False
  then have "\<forall>x \<in> set [v]. \<forall>w. has_edge g x w \<longrightarrow> w \<in> set [v]" by (simp add: has_edge_def)
  from reach_stationary [OF this] have "reach g (order g) [v] = [v]" .
  with assms(1) have "x = v" by (simp add: reachable_def)
  with assms(2) False show ?thesis by (simp add: has_edge_def)
qed

lemma reachable_iff: "reachable g v x \<longleftrightarrow> (v, x) \<in> (adjrel g)\<^sup>*"
proof
  assume "reachable g v x"
  then have "x \<in> set (reach g (order g) [v])" by (simp add: reachable_def)
  moreover have "set (reach g (order g) [v]) \<subseteq> {x. (v, x) \<in> (adjrel g)\<^sup>*}"
  proof (rule reach_sound)
    show "set [v] \<subseteq> {x. (v, x) \<in> (adjrel g)\<^sup>*}" by simp
  next
    fix x w assume "x \<in> {x. (v, x) \<in> (adjrel g)\<^sup>*}" and "has_edge g x w"
    then have "(v, x) \<in> (adjrel g)\<^sup>*" and "(x, w) \<in> adjrel g" by (simp_all add: adjrel_def)
    then have "(v, w) \<in> (adjrel g)\<^sup>*" by (rule rtrancl_into_rtrancl)
    then show "w \<in> {x. (v, x) \<in> (adjrel g)\<^sup>*}" by simp
  qed
  ultimately show "(v, x) \<in> (adjrel g)\<^sup>*" by blast
next
  assume "(v, x) \<in> (adjrel g)\<^sup>*"
  then show "reachable g v x"
  proof (induction rule: rtrancl_induct)
    case base
    show ?case by (rule reachable_refl)
  next
    case (step y z)
    from step(2) have "has_edge g y z" by (simp add: adjrel_def)
    from reachable_step [OF step(3) this] show ?case .
  qed
qed

lemma cc_loop_classes:
  assumes "c \<in> set (cc_loop g vs)"
  shows "\<exists>v \<in> set vs. c \<noteq> [] \<and> hd c = v \<and> set c = {u \<in> set vs. (v, u) \<in> (adjrel g)\<^sup>*}"
  using assms
proof (induction g vs rule: cc_loop.induct)
  case (1 g)
  then show ?case by simp
next
  case (2 g v vs)
  from "2.prems" have "c = v # filter (reachable g v) vs
      \<or> c \<in> set (cc_loop g (filter (\<lambda>u. \<not> reachable g v u) vs))" by simp
  then show ?case
  proof
    assume c: "c = v # filter (reachable g v) vs"
    have "set c = {u \<in> set (v # vs). (v, u) \<in> (adjrel g)\<^sup>*}"
      unfolding c by (auto simp: reachable_iff)
    with c show ?thesis by auto
  next
    assume "c \<in> set (cc_loop g (filter (\<lambda>u. \<not> reachable g v u) vs))"
    from "2.IH" [OF this] obtain v' where v': "v' \<in> set vs" "\<not> reachable g v v'"
      and c: "c \<noteq> []" "hd c = v'"
        "set c = {u \<in> set (filter (\<lambda>u. \<not> reachable g v u) vs). (v', u) \<in> (adjrel g)\<^sup>*}"
      by auto
    have nv: "(v, v') \<notin> (adjrel g)\<^sup>*" using v'(2) by (simp add: reachable_iff)
    have "set c = {u \<in> set (v # vs). (v', u) \<in> (adjrel g)\<^sup>*}"
    proof (intro set_eqI iffI)
      fix u assume "u \<in> set c"
      with c(3) show "u \<in> {u \<in> set (v # vs). (v', u) \<in> (adjrel g)\<^sup>*}" by simp
    next
      fix u assume "u \<in> {u \<in> set (v # vs). (v', u) \<in> (adjrel g)\<^sup>*}"
      then have u: "u \<in> set (v # vs)" "(v', u) \<in> (adjrel g)\<^sup>*" by simp_all
      have nvu: "(v, u) \<notin> (adjrel g)\<^sup>*"
      proof
        assume "(v, u) \<in> (adjrel g)\<^sup>*"
        moreover from u(2) have "(u, v') \<in> (adjrel g)\<^sup>*" by (rule adjrel_rtrancl_sym)
        ultimately have "(v, v') \<in> (adjrel g)\<^sup>*" by (rule rtrancl_trans)
        with nv show False by simp
      qed
      then have "u \<noteq> v" by auto
      with u(1) have "u \<in> set vs" by simp
      with nvu u(2) show "u \<in> set c" unfolding c(3) by (simp add: reachable_iff)
    qed
    with v'(1) c(1,2) show ?thesis by auto
  qed
qed

lemma cc_loop_cover:
  assumes "a \<in> set vs"
  shows "\<exists>c \<in> set (cc_loop g vs). a \<in> set c"
proof -
  have "set (concat (cc_loop g vs)) = set vs"
    using cc_loop_mset [of g vs] by (rule mset_eq_setD)
  with assms show ?thesis by auto
qed

lemma component_related:
  assumes "c \<in> set (connected_components g)" and "a \<in> set c" and "b \<in> set c"
  shows "(a, b) \<in> (adjrel g)\<^sup>*"
proof -
  from cc_loop_classes [OF assms(1) [unfolded connected_components_def]]
  obtain v where "set c = {u \<in> set (vertices g). (v, u) \<in> (adjrel g)\<^sup>*}" by blast
  with assms(2,3) have "(v, a) \<in> (adjrel g)\<^sup>*" "(v, b) \<in> (adjrel g)\<^sup>*" by simp_all
  from adjrel_rtrancl_sym [OF this(1)] this(2) show ?thesis by (rule rtrancl_trans)
qed

lemma component_closed:
  assumes "c \<in> set (connected_components g)" and "a \<in> set c" and "has_edge g a b"
  shows "b \<in> set c"
proof -
  from cc_loop_classes [OF assms(1) [unfolded connected_components_def]]
  obtain v where c: "set c = {u \<in> set (vertices g). (v, u) \<in> (adjrel g)\<^sup>*}" by blast
  with assms(2) have "(v, a) \<in> (adjrel g)\<^sup>*" by simp
  moreover from assms(3) have "(a, b) \<in> adjrel g" by (simp add: adjrel_def)
  ultimately have "(v, b) \<in> (adjrel g)\<^sup>*" by (rule rtrancl_into_rtrancl)
  moreover from assms(3) have "b \<in> set (vertices g)" by (simp add: has_edge_def)
  ultimately show ?thesis by (simp add: c)
qed

lemma component_vertices:
  assumes "c \<in> set (connected_components g)"
  shows "set c \<subseteq> set (vertices g)"
  using cc_loop_subset [OF assms [unfolded connected_components_def]] .

lemma component_module:
  assumes "c \<in> set (connected_components g)"
  shows "is_module g (set c)"
  unfolding is_module_def
proof (intro conjI ballI)
  show "set c \<subseteq> set (vertices g)" by (rule component_vertices [OF assms])
next
  fix x assume x: "x \<in> set (vertices g) - set c"
  have "\<not> has_edge g x u" if "u \<in> set c" for u
  proof
    assume "has_edge g x u"
    then have "has_edge g u x" by (simp add: has_edge_commute)
    from component_closed [OF assms that this] x show False by simp
  qed
  then show "(\<forall>u \<in> set c. has_edge g x u) \<or> (\<forall>u \<in> set c. \<not> has_edge g x u)" by blast
qed

lemma cocomponent_module:
  assumes "c \<in> set (connected_components (complement g))"
  shows "is_module g (set c)"
  unfolding is_module_def
proof (intro conjI ballI)
  show "set c \<subseteq> set (vertices g)"
    using component_vertices [OF assms] by (simp add: complement_def)
next
  fix x assume x: "x \<in> set (vertices g) - set c"
  have "has_edge g x u" if "u \<in> set c" for u
  proof (rule ccontr)
    assume n: "\<not> has_edge g x u"
    from that component_vertices [OF assms] have "u \<in> set (vertices g)"
      by (auto simp: complement_def)
    moreover from that x have "u \<noteq> x" by blast
    ultimately have "has_edge (complement g) u x"
      using n x by (simp add: has_edge_complement has_edge_commute)
    from component_closed [OF assms that this] x show False by simp
  qed
  then show "(\<forall>u \<in> set c. has_edge g x u) \<or> (\<forall>u \<in> set c. \<not> has_edge g x u)" by blast
qed

text \<open>The union-find structure: its blocks stay disjoint, and a union joins two blocks.\<close>

definition pieces :: "graph \<Rightarrow> pyval set list list" where
  "pieces g = fold (gamma_vertex g) (vertices g) (map (\<lambda>e. [e]) (edge_iterator g))"

definition blk :: "'a list list \<Rightarrow> 'a \<Rightarrow> 'a \<Rightarrow> bool" where
  "blk ps x y \<longleftrightarrow> (\<exists>p \<in> set ps. x \<in> set p \<and> y \<in> set p)"

definition ds_inv :: "'a list list \<Rightarrow> bool" where
  "ds_inv ps \<longleftrightarrow> distinct (concat ps) \<and> [] \<notin> set ps"

lemma ds_union_cases [case_names none same merge]:
  obtains "(\<forall>p \<in> set ps. a \<notin> set p) \<or> (\<forall>p \<in> set ps. b \<notin> set p)" and "ds_union ps a b = ps"
  | p where "p \<in> set ps" and "a \<in> set p" and "b \<in> set p" and "ds_union ps a b = ps"
  | pa pb where "pa \<in> set ps" and "pb \<in> set ps" and "a \<in> set pa" and "b \<in> set pb"
      and "pa \<noteq> pb"
      and "ds_union ps a b = map (\<lambda>p. if p = pa then pa @ pb else p) (filter (\<lambda>p. p \<noteq> pb) ps)"
proof (cases "find (\<lambda>p. a \<in> set p) ps")
  case None
  then have "\<forall>p \<in> set ps. a \<notin> set p" by (simp add: find_None_iff)
  moreover from None have "ds_union ps a b = ps" by (simp add: ds_union_def)
  ultimately show ?thesis using that(1) by blast
next
  case (Some pa)
  note pa = this
  then have pa': "pa \<in> set ps" "a \<in> set pa" by (auto simp: find_Some_iff)
  show ?thesis
  proof (cases "find (\<lambda>p. b \<in> set p) ps")
    case None
    then have "\<forall>p \<in> set ps. b \<notin> set p" by (simp add: find_None_iff)
    moreover from None pa have "ds_union ps a b = ps" by (simp add: ds_union_def)
    ultimately show ?thesis using that(1) by blast
  next
    case (Some pb)
    then have pb': "pb \<in> set ps" "b \<in> set pb" by (auto simp: find_Some_iff)
    show ?thesis
    proof (cases "pa = pb")
      case True
      with pa Some have "ds_union ps a b = ps" by (simp add: ds_union_def)
      with pa' pb' True that(2) show ?thesis by blast
    next
      case False
      with pa Some have "ds_union ps a b
          = map (\<lambda>p. if p = pa then pa @ pb else p) (filter (\<lambda>p. p \<noteq> pb) ps)"
        by (simp add: ds_union_def)
      with pa' pb' False that(3) show ?thesis by blast
    qed
  qed
qed

lemma merged_blocks:
  assumes "pa \<in> set ps" and "pa \<noteq> pb"
  shows "set (map (\<lambda>p. if p = pa then pa @ pb else p) (filter (\<lambda>p. p \<noteq> pb) ps))
           = insert (pa @ pb) (set ps - {pa, pb})"
  using assms by auto

lemma blk_ds_union_mono:
  assumes "blk ps x y"
  shows "blk (ds_union ps a b) x y"
proof (cases rule: ds_union_cases [where ps = ps and a = a and b = b])
  case none
  with assms show ?thesis by simp
next
  case (same p)
  with assms show ?thesis by simp
next
  case (merge pa pb)
  from assms obtain p where p: "p \<in> set ps" "x \<in> set p" "y \<in> set p"
    unfolding blk_def by blast
  have s: "set (ds_union ps a b) = insert (pa @ pb) (set ps - {pa, pb})"
    unfolding merge(6) by (rule merged_blocks [OF merge(1,5)])
  show ?thesis
  proof (cases "p = pa \<or> p = pb")
    case True
    with p have "x \<in> set (pa @ pb)" "y \<in> set (pa @ pb)" by auto
    then show ?thesis unfolding blk_def s by blast
  next
    case False
    with p show ?thesis unfolding blk_def s by blast
  qed
qed

lemma blk_ds_union:
  assumes "\<exists>p \<in> set ps. a \<in> set p" and "\<exists>p \<in> set ps. b \<in> set p"
  shows "blk (ds_union ps a b) a b"
proof (cases rule: ds_union_cases [where ps = ps and a = a and b = b])
  case none
  with assms show ?thesis by blast
next
  case (same p)
  then show ?thesis unfolding blk_def by auto
next
  case (merge pa pb)
  have s: "set (ds_union ps a b) = insert (pa @ pb) (set ps - {pa, pb})"
    unfolding merge(6) by (rule merged_blocks [OF merge(1,5)])
  from merge(3,4) have "a \<in> set (pa @ pb)" "b \<in> set (pa @ pb)" by simp_all
  then show ?thesis unfolding blk_def s by blast
qed

lemma filter_block_mset:
  assumes "distinct ps" and "pb \<in> set ps"
  shows "mset (concat (filter (\<lambda>p. p \<noteq> pb) ps)) + mset pb = mset (concat ps)"
  using assms
proof (induction ps)
  case Nil
  then show ?case by simp
next
  case (Cons p ps)
  show ?case
  proof (cases "p = pb")
    case True
    with Cons.prems have "pb \<notin> set ps" by simp
    then have "filter (\<lambda>p. p \<noteq> pb) ps = ps" by (auto simp: filter_id_conv)
    with True show ?thesis by simp
  next
    case False
    with Cons show ?thesis by simp
  qed
qed

lemma map_block_mset:
  assumes "distinct qs" and "pa \<in> set qs"
  shows "mset (concat (map (\<lambda>p. if p = pa then pa @ pb else p) qs)) = mset (concat qs) + mset pb"
  using assms
proof (induction qs)
  case Nil
  then show ?case by simp
next
  case (Cons p qs)
  show ?case
  proof (cases "p = pa")
    case True
    with Cons.prems have "pa \<notin> set qs" by simp
    then have "map (\<lambda>p. if p = pa then pa @ pb else p) qs = qs" by (intro map_idI) auto
    with True show ?thesis by simp
  next
    case False
    with Cons show ?thesis by simp
  qed
qed

lemma ds_inv_distinct: "ds_inv ps \<Longrightarrow> distinct ps"
  unfolding ds_inv_def distinct_concat_iff by (auto simp: removeAll_id)

lemma ds_union_mset:
  assumes "ds_inv ps"
  shows "mset (concat (ds_union ps a b)) = mset (concat ps)"
proof (cases rule: ds_union_cases [where ps = ps and a = a and b = b])
  case none
  then show ?thesis by simp
next
  case (same p)
  then show ?thesis by simp
next
  case (merge pa pb)
  from assms have d: "distinct ps" by (rule ds_inv_distinct)
  then have d': "distinct (filter (\<lambda>p. p \<noteq> pb) ps)" by simp
  from merge(1,5) have "pa \<in> set (filter (\<lambda>p. p \<noteq> pb) ps)" by simp
  from map_block_mset [OF d' this, of pb] filter_block_mset [OF d merge(2)]
  show ?thesis unfolding merge(6) by simp
qed

lemma ds_union_inv':
  assumes "ds_inv ps"
  shows "ds_inv (ds_union ps a b)"
proof -
  from ds_union_mset [OF assms, of a b] assms
  have "distinct (concat (ds_union ps a b))"
    unfolding ds_inv_def by (metis mset_eq_imp_distinct_iff)
  moreover have "[] \<notin> set (ds_union ps a b)"
  proof (cases rule: ds_union_cases [where ps = ps and a = a and b = b])
    case none
    with assms show ?thesis by (simp add: ds_inv_def)
  next
    case (same p)
    with assms show ?thesis by (simp add: ds_inv_def)
  next
    case (merge pa pb)
    have s: "set (ds_union ps a b) = insert (pa @ pb) (set ps - {pa, pb})"
      unfolding merge(6) by (rule merged_blocks [OF merge(1,5)])
    from merge(3) have "pa @ pb \<noteq> []" by auto
    with assms show ?thesis unfolding s ds_inv_def by auto
  qed
  ultimately show ?thesis by (simp add: ds_inv_def)
qed

lemma ds_union_set:
  assumes "ds_inv ps"
  shows "set (concat (ds_union ps a b)) = set (concat ps)"
  using ds_union_mset [OF assms, of a b] by (rule mset_eq_setD)

lemma blk_same_block:
  assumes "ds_inv ps" and "p \<in> set ps" and "q \<in> set ps" and "x \<in> set p" and "x \<in> set q"
  shows "p = q"
proof (rule ccontr)
  assume "p \<noteq> q"
  with assms(1,2,3) have "set p \<inter> set q = {}"
    unfolding ds_inv_def distinct_concat_iff by blast
  with assms(4,5) show False by blast
qed

lemma blk_trans:
  assumes "ds_inv ps" and "blk ps x y" and "blk ps y z"
  shows "blk ps x z"
proof -
  from assms(2) obtain p where p: "p \<in> set ps" "x \<in> set p" "y \<in> set p" unfolding blk_def by blast
  from assms(3) obtain q where q: "q \<in> set ps" "y \<in> set q" "z \<in> set q" unfolding blk_def by blast
  from blk_same_block [OF assms(1) p(1) q(1) p(3) q(2)] p q show ?thesis unfolding blk_def by blast
qed

lemma blk_sym: "blk ps x y \<Longrightarrow> blk ps y x"
  unfolding blk_def by blast

definition sound :: "graph \<Rightarrow> pyval set list list \<Rightarrow> bool" where
  "sound g ps \<longleftrightarrow> (\<forall>p \<in> set ps. \<forall>a \<in> set p. \<forall>b \<in> set p. b \<in> gclass g a)"

lemma gclass_sym: "b \<in> gclass g a \<Longrightarrow> a \<in> gclass g b"
  unfolding gclass_def mem_Collect_eq by (rule gam_rtrancl_sym)

lemma gclass_trans: "b \<in> gclass g a \<Longrightarrow> c \<in> gclass g b \<Longrightarrow> c \<in> gclass g a"
  unfolding gclass_def mem_Collect_eq by (rule rtrancl_trans)

lemma sound_ds_union:
  assumes s: "sound g ps" and ab: "b \<in> gclass g a"
  shows "sound g (ds_union ps a b)"
proof (cases rule: ds_union_cases [where ps = ps and a = a and b = b])
  case none
  with s show ?thesis by simp
next
  case (same p)
  with s show ?thesis by simp
next
  case (merge pa pb)
  have st: "set (ds_union ps a b) = insert (pa @ pb) (set ps - {pa, pb})"
    unfolding merge(6) by (rule merged_blocks [OF merge(1,5)])
  have inpa: "\<And>x y. x \<in> set pa \<Longrightarrow> y \<in> set pa \<Longrightarrow> y \<in> gclass g x"
    using s merge(1) unfolding sound_def by blast
  have inpb: "\<And>x y. x \<in> set pb \<Longrightarrow> y \<in> set pb \<Longrightarrow> y \<in> gclass g x"
    using s merge(2) unfolding sound_def by blast
  have cross: "y \<in> gclass g x" if "x \<in> set pa" "y \<in> set pb" for x y
  proof -
    from inpa [OF that(1) merge(3)] have "a \<in> gclass g x" .
    then have "b \<in> gclass g x" using ab by (rule gclass_trans)
    then show ?thesis using inpb [OF merge(4) that(2)] by (rule gclass_trans)
  qed
  have new: "y \<in> gclass g x" if "x \<in> set (pa @ pb)" "y \<in> set (pa @ pb)" for x y
  proof -
    from that have "x \<in> set pa \<or> x \<in> set pb" "y \<in> set pa \<or> y \<in> set pb" by simp_all
    then show ?thesis using inpa inpb cross gclass_sym [OF cross] by blast
  qed
  show ?thesis
    unfolding sound_def st
  proof (intro ballI)
    fix p x y assume p: "p \<in> insert (pa @ pb) (set ps - {pa, pb})" and x: "x \<in> set p" and y: "y \<in> set p"
    show "y \<in> gclass g x"
    proof (cases "p = pa @ pb")
      case True
      with x y new show ?thesis by simp
    next
      case False
      with p have "p \<in> set ps" by simp
      with s x y show ?thesis unfolding sound_def by blast
    qed
  qed
qed

text \<open>
  \<^verbatim>\<open>gamma_classes\<close> unites exactly the Gamma related edges: the blocks of \<open>pieces\<close> are
  the Gamma classes of the graph.
\<close>

lemma neighbors_of_set: "set (neighbors_of g v) = {a. has_edge g v a}"
  unfolding neighbors_of_def has_edge_def by auto

lemma has_edge_co_nbhd:
  "has_edge (complement (subgraph g (neighbors_of g v))) a b \<longleftrightarrow>
     a \<noteq> b \<and> has_edge g v a \<and> has_edge g v b \<and> \<not> has_edge g a b"
  unfolding has_edge_complement has_edge_subgraph vertices_subgraph neighbors_of_set
  by (auto simp: has_edge_def)

lemma vertices_co_nbhd:
  "set (vertices (complement (subgraph g (neighbors_of g v)))) = {a. has_edge g v a}"
proof -
  have "vertices (complement (subgraph g (neighbors_of g v))) = vertices (subgraph g (neighbors_of g v))"
    by (simp add: complement_def)
  then have "set (vertices (complement (subgraph g (neighbors_of g v))))
      = set (vertices g) \<inter> {a. has_edge g v a}"
    by (simp only: vertices_subgraph neighbors_of_set)
  also have "\<dots> = {a. has_edge g v a}" by (auto simp: has_edge_def)
  finally show ?thesis .
qed

lemma co_nbhd_chain:
  assumes "(a, x) \<in> (adjrel (complement (subgraph g (neighbors_of g v))))\<^sup>*"
      and "has_edge g v a"
  shows "has_edge g v x \<and> {v, x} \<in> gclass g {v, a}"
  using assms(1)
proof (induction rule: rtrancl_induct)
  case base
  show ?case using assms(2) by (simp add: gclass_refl)
next
  case (step y z)
  from step(2) have yz: "has_edge g v z" "\<not> has_edge g y z"
    by (simp_all add: adjrel_def has_edge_co_nbhd)
  from step(3) have vy: "has_edge g v y" "{v, y} \<in> gclass g {v, a}" by simp_all
  from gclass_step [OF vy(1) yz(1) yz(2) vy(2)] yz(1) show ?case by simp
qed

definition ds_cover :: "graph \<Rightarrow> pyval set list list \<Rightarrow> bool" where
  "ds_cover g ps \<longleftrightarrow> ds_inv ps \<and> set (concat ps) = {e. edge_ok g e}"

lemma ds_cover_union: "ds_cover g ps \<Longrightarrow> ds_cover g (ds_union ps a b)"
  unfolding ds_cover_def using ds_union_inv' [of ps a b] ds_union_set [of ps a b] by blast

lemma ds_cover_blk: "ds_cover g ps \<Longrightarrow> edge_ok g e \<Longrightarrow> blk ps e e"
  unfolding ds_cover_def blk_def by auto

lemma ds_cover_mem: "ds_cover g ps \<Longrightarrow> edge_ok g e \<Longrightarrow> \<exists>p \<in> set ps. e \<in> set p"
  unfolding ds_cover_def by auto

lemma fold_establish:
  assumes inv: "\<And>y s. y \<in> set xs \<Longrightarrow> I s \<Longrightarrow> I (f y s)"
      and est: "\<And>s. I s \<Longrightarrow> Q (f x s)"
      and stable: "\<And>y s. y \<in> set xs \<Longrightarrow> I s \<Longrightarrow> Q s \<Longrightarrow> Q (f y s)"
      and "I s0" and "x \<in> set xs"
  shows "Q (fold f xs s0)"
  using assms(4,5) inv stable
proof (induction xs arbitrary: s0)
  case Nil
  then show ?case by simp
next
  case (Cons y ys)
  have I1: "I (f y s0)" using Cons.prems(1,3) by simp
  show ?case
  proof (cases "x = y")
    case True
    have Q1: "Q (f y s0)" unfolding True [symmetric] by (rule est [OF Cons.prems(1)])
    have "I (fold f ys (f y s0)) \<and> Q (fold f ys (f y s0))"
    proof (rule fold_inv [where I = "\<lambda>s. I s \<and> Q s"])
      show "I (f y s0) \<and> Q (f y s0)" using I1 Q1 by simp
    next
      fix z s assume "z \<in> set ys" "I s \<and> Q s"
      then show "I (f z s) \<and> Q (f z s)" using Cons.prems(3,4) by simp
    qed
    then show ?thesis by simp
  next
    case False
    with Cons.prems(2) have "x \<in> set ys" by simp
    from Cons.IH [OF I1 this] Cons.prems(3,4) show ?thesis by simp
  qed
qed

lemma inner_cover:
  assumes "ds_cover g ps"
  shows "ds_cover g (fold (\<lambda>vi ps'. ds_union ps' {v1, v} {vi, v}) rest ps)"
  by (rule fold_inv [where I = "ds_cover g"], rule assms) (rule ds_cover_union)

lemma inner_mono:
  assumes "blk ps x y"
  shows "blk (fold (\<lambda>vi ps'. ds_union ps' {v1, v} {vi, v}) rest ps) x y"
  by (rule fold_inv [where I = "\<lambda>ps. blk ps x y"], rule assms) (rule blk_ds_union_mono)

lemma inner_sound:
  assumes "sound g ps" and "\<forall>vi \<in> set rest. {vi, v} \<in> gclass g {v1, v}"
  shows "sound g (fold (\<lambda>vi ps'. ds_union ps' {v1, v} {vi, v}) rest ps)"
proof (rule fold_inv [where I = "sound g"], rule assms(1))
  fix x s assume "x \<in> set rest" and "sound g s"
  with assms(2) show "sound g (ds_union s {v1, v} {x, v})" by (intro sound_ds_union) simp_all
qed

lemma inner_complete:
  assumes c: "ds_cover g ps" and e1: "edge_ok g {v1, v}"
      and er: "\<forall>vi \<in> set rest. edge_ok g {vi, v}" and x: "x \<in> set rest"
  shows "blk (fold (\<lambda>vi ps'. ds_union ps' {v1, v} {vi, v}) rest ps) {v1, v} {x, v}"
proof (rule fold_establish [where I = "ds_cover g" and x = x and xs = rest
      and Q = "\<lambda>s. blk s {v1, v} {x, v}"])
  show "\<And>y s. ds_cover g s \<Longrightarrow> ds_cover g (ds_union s {v1, v} {y, v})" by (rule ds_cover_union)
  show "ds_cover g ps" by (rule c)
  show "x \<in> set rest" by (rule x)
  show "\<And>y s. blk s {v1, v} {x, v} \<Longrightarrow> blk (ds_union s {v1, v} {y, v}) {v1, v} {x, v}"
    by (rule blk_ds_union_mono)
next
  fix s assume s: "ds_cover g s"
  from er x have "edge_ok g {x, v}" by simp
  from ds_cover_mem [OF s e1] ds_cover_mem [OF s this]
  show "blk (ds_union s {v1, v} {x, v}) {v1, v} {x, v}" by (rule blk_ds_union)
qed

definition gv_step :: "pyval \<Rightarrow> pyval list \<Rightarrow> pyval set list list \<Rightarrow> pyval set list list" where
  "gv_step v component ps =
     (case component of
        [] \<Rightarrow> ps
      | v1 # rest \<Rightarrow> fold (\<lambda>vi ps'. ds_union ps' {v1, v} {vi, v}) rest ps)"

lemma gamma_vertex_alt:
  "gamma_vertex g v ps =
     fold (gv_step v) (connected_components (complement (subgraph g (neighbors_of g v)))) ps"
  unfolding gamma_vertex_def gv_step_def ..

lemma gv_step_cover: "ds_cover g ps \<Longrightarrow> ds_cover g (gv_step v c ps)"
  unfolding gv_step_def by (cases c) (simp_all add: inner_cover)

lemma gv_step_mono: "blk ps x y \<Longrightarrow> blk (gv_step v c ps) x y"
  unfolding gv_step_def by (cases c) (simp_all add: inner_mono)

lemma component_edges:
  assumes "c \<in> set (connected_components (complement (subgraph g (neighbors_of g v))))"
      and "x \<in> set c"
  shows "has_edge g v x" and "edge_ok g {x, v}"
proof -
  from component_vertices [OF assms(1)] assms(2)
  show "has_edge g v x" unfolding vertices_co_nbhd by blast
  then have "has_edge g x v" by (simp add: has_edge_commute)
  then show "edge_ok g {x, v}" unfolding edge_ok_def by blast
qed

lemma gv_step_sound:
  assumes "sound g ps"
      and c: "c \<in> set (connected_components (complement (subgraph g (neighbors_of g v))))"
  shows "sound g (gv_step v c ps)"
proof (cases c)
  case Nil
  with assms(1) show ?thesis by (simp add: gv_step_def)
next
  case (Cons v1 rest)
  have "\<forall>vi \<in> set rest. {vi, v} \<in> gclass g {v1, v}"
  proof
    fix vi assume "vi \<in> set rest"
    then have vi: "vi \<in> set c" and v1: "v1 \<in> set c" by (simp_all add: Cons)
    from component_related [OF c v1 vi] component_edges(1) [OF c v1]
    have "{v, vi} \<in> gclass g {v, v1}" by (simp add: co_nbhd_chain)
    then show "{vi, v} \<in> gclass g {v1, v}" by (simp add: insert_commute)
  qed
  from inner_sound [OF assms(1) this] show ?thesis by (simp add: gv_step_def Cons)
qed

lemma gv_step_complete:
  assumes cv: "ds_cover g ps"
      and c: "c \<in> set (connected_components (complement (subgraph g (neighbors_of g v))))"
      and x: "x \<in> set c"
  shows "blk (gv_step v c ps) {hd c, v} {x, v}"
proof (cases c)
  case Nil
  with x show ?thesis by simp
next
  case (Cons v1 rest)
  have e1: "edge_ok g {v1, v}" by (rule component_edges(2) [OF c]) (simp add: Cons)
  have er: "\<forall>vi \<in> set rest. edge_ok g {vi, v}"
    using component_edges(2) [OF c] by (simp add: Cons)
  from x have "x = v1 \<or> x \<in> set rest" by (simp add: Cons)
  then show ?thesis
  proof
    assume "x = v1"
    with ds_cover_blk [OF gv_step_cover [OF cv] e1] show ?thesis by (simp add: Cons)
  next
    assume "x \<in> set rest"
    from inner_complete [OF cv e1 er this] show ?thesis by (simp add: gv_step_def Cons)
  qed
qed

lemma gamma_vertex_cover: "ds_cover g ps \<Longrightarrow> ds_cover g (gamma_vertex g v ps)"
  unfolding gamma_vertex_alt
  by (rule fold_inv [where I = "ds_cover g"]) (simp_all add: gv_step_cover)

lemma gamma_vertex_mono: "blk ps x y \<Longrightarrow> blk (gamma_vertex g v ps) x y"
  unfolding gamma_vertex_alt
  by (rule fold_inv [where I = "\<lambda>ps. blk ps x y"]) (simp_all add: gv_step_mono)

lemma gamma_vertex_sound: "sound g ps \<Longrightarrow> sound g (gamma_vertex g v ps)"
  unfolding gamma_vertex_alt
  by (rule fold_inv [where I = "sound g"]) (simp_all add: gv_step_sound)

lemma gamma_vertex_complete:
  assumes cv: "ds_cover g ps"
      and va: "has_edge g v a" and vb: "has_edge g v b" and nab: "\<not> has_edge g a b"
  shows "blk (gamma_vertex g v ps) {v, a} {v, b}"
proof (cases "a = b")
  case True
  from va have "edge_ok g {v, a}" unfolding edge_ok_def by blast
  from ds_cover_blk [OF gamma_vertex_cover [OF cv] this] True show ?thesis by simp
next
  case False
  let ?H = "complement (subgraph g (neighbors_of g v))"
  let ?ps = "gamma_vertex g v ps"
  from False va vb nab have ab: "has_edge ?H a b" by (simp add: has_edge_co_nbhd)
  from va have "a \<in> set (vertices ?H)" by (simp add: vertices_co_nbhd)
  from cc_loop_cover [OF this] obtain c where c: "c \<in> set (connected_components ?H)" "a \<in> set c"
    unfolding connected_components_def by blast
  from component_closed [OF c ab] have b: "b \<in> set c" .
  have est: "\<forall>x \<in> set c. blk ?ps {hd c, v} {x, v}"
    unfolding gamma_vertex_alt
  proof (rule fold_establish [where I = "ds_cover g" and x = c
      and Q = "\<lambda>s. \<forall>x \<in> set c. blk s {hd c, v} {x, v}"])
    show "\<And>y s. ds_cover g s \<Longrightarrow> ds_cover g (gv_step v y s)" by (rule gv_step_cover)
    show "ds_cover g ps" by (rule cv)
    show "c \<in> set (connected_components ?H)" by (rule c(1))
    show "\<And>s. ds_cover g s \<Longrightarrow> \<forall>x \<in> set c. blk (gv_step v c s) {hd c, v} {x, v}"
      using gv_step_complete [OF _ c(1)] by blast
    show "\<And>y s. \<forall>x \<in> set c. blk s {hd c, v} {x, v} \<Longrightarrow> \<forall>x \<in> set c. blk (gv_step v y s) {hd c, v} {x, v}"
      using gv_step_mono by blast
  qed
  from gamma_vertex_cover [OF cv] have inv: "ds_inv ?ps" by (simp add: ds_cover_def)
  from est c(2) b have "blk ?ps {hd c, v} {a, v}" "blk ?ps {hd c, v} {b, v}" by simp_all
  from blk_trans [OF inv blk_sym [OF this(1)] this(2)]
  show ?thesis by (simp add: insert_commute)
qed

lemma edge_iterator_set: "set (edge_iterator g) = {e. edge_ok g e}"
proof (intro set_eqI iffI)
  fix e assume "e \<in> set (edge_iterator g)"
  then show "e \<in> {e. edge_ok g e}" by (simp add: edge_iterator_ok)
next
  fix e assume "e \<in> {e. edge_ok g e}"
  then obtain u v where e: "e = {u, v}" and h: "has_edge g u v"
    unfolding edge_ok_def by blast
  from h have "(u, v) \<in> set (edges g) \<or> (v, u) \<in> set (edges g)" by (simp add: has_edge_def)
  then show "e \<in> set (edge_iterator g)"
  proof
    assume "(u, v) \<in> set (edges g)"
    with h have "(u, v) \<in> set (filter (\<lambda>(u, v). has_edge g u v) (edges g))" by simp
    then have "(\<lambda>(u, v). {u, v}) (u, v) \<in> set (edge_iterator g)"
      unfolding edge_iterator_def set_remdups set_map by (rule imageI)
    then show ?thesis by (simp add: e)
  next
    assume "(v, u) \<in> set (edges g)"
    moreover from h have "has_edge g v u" by (simp add: has_edge_commute)
    ultimately have "(v, u) \<in> set (filter (\<lambda>(u, v). has_edge g u v) (edges g))" by simp
    then have "(\<lambda>(u, v). {u, v}) (v, u) \<in> set (edge_iterator g)"
      unfolding edge_iterator_def set_remdups set_map by (rule imageI)
    then show ?thesis by (simp add: e insert_commute)
  qed
qed

lemma concat_singletons: "concat (map (\<lambda>e. [e]) xs) = xs"
  by (induction xs) simp_all

lemma init_cover: "ds_cover g (map (\<lambda>e. [e]) (edge_iterator g))"
proof -
  have "distinct (edge_iterator g)" by (simp add: edge_iterator_def)
  then show ?thesis
    unfolding ds_cover_def ds_inv_def concat_singletons edge_iterator_set by auto
qed

lemma init_sound: "sound g (map (\<lambda>e. [e]) (edge_iterator g))"
  unfolding sound_def by (auto simp: gclass_refl)

lemma pieces_cover: "ds_cover g (pieces g)"
  unfolding pieces_def
  by (rule fold_inv [where I = "ds_cover g"]) (simp_all add: init_cover gamma_vertex_cover)

lemma pieces_sound: "sound g (pieces g)"
  unfolding pieces_def
  by (rule fold_inv [where I = "sound g"]) (simp_all add: init_sound gamma_vertex_sound)

lemma pieces_complete:
  assumes "(e, e') \<in> gam g"
  shows "blk (pieces g) e e'"
proof -
  from assms obtain u v w where ee: "e = {u, v}" "e' = {u, w}"
    and h: "has_edge g u v" "has_edge g u w" "\<not> has_edge g v w"
    unfolding gam_def by blast
  from h(1) have u: "u \<in> set (vertices g)" by (simp add: has_edge_def)
  have "blk (pieces g) {u, v} {u, w}"
    unfolding pieces_def
  proof (rule fold_establish [where I = "ds_cover g" and x = u
        and Q = "\<lambda>s. blk s {u, v} {u, w}"])
    show "\<And>y s. ds_cover g s \<Longrightarrow> ds_cover g (gamma_vertex g y s)" by (rule gamma_vertex_cover)
    show "\<And>s. ds_cover g s \<Longrightarrow> blk (gamma_vertex g u s) {u, v} {u, w}"
      by (rule gamma_vertex_complete [OF _ h])
    show "\<And>y s. blk s {u, v} {u, w} \<Longrightarrow> blk (gamma_vertex g y s) {u, v} {u, w}"
      by (rule gamma_vertex_mono)
    show "ds_cover g (map (\<lambda>e. [e]) (edge_iterator g))" by (rule init_cover)
    show "u \<in> set (vertices g)" by (rule u)
  qed
  then show ?thesis by (simp add: ee)
qed

lemma pieces_block_class:
  assumes p: "p \<in> set (pieces g)" and e: "e \<in> set p"
  shows "set p = gclass g e"
proof (intro set_eqI iffI)
  fix x assume "x \<in> set p"
  with pieces_sound [of g] p e show "x \<in> gclass g e" unfolding sound_def by blast
next
  fix x assume "x \<in> gclass g e"
  then have "(e, x) \<in> (gam g)\<^sup>*" by (simp add: gclass_def)
  then show "x \<in> set p"
  proof (induction rule: rtrancl_induct)
    case base
    show ?case by (rule e)
  next
    case (step y z)
    from pieces_complete [OF step(2)] obtain q where q: "q \<in> set (pieces g)" "y \<in> set q" "z \<in> set q"
      unfolding blk_def by blast
    from pieces_cover [of g] have "ds_inv (pieces g)" by (simp add: ds_cover_def)
    from blk_same_block [OF this p q(1) step(3) q(2)] q(3) show ?case by simp
  qed
qed

lemma pieces_block_edge:
  assumes "p \<in> set (pieces g)"
  obtains e where "e \<in> set p" and "edge_ok g e"
proof -
  from pieces_cover [of g] have c: "ds_inv (pieces g)" "set (concat (pieces g)) = {e. edge_ok g e}"
    by (simp_all add: ds_cover_def)
  from c(1) assms have "p \<noteq> []" unfolding ds_inv_def by blast
  then obtain e where e: "e \<in> set p" by (cases p) auto
  with assms have "e \<in> set (concat (pieces g))" by auto
  with c(2) have "edge_ok g e" by simp
  with e that show ?thesis by blast
qed

lemma map_of_update_dict:
  "map_of (update_dict k v m) k' = (if k' = k then Some v else map_of m k')"
proof (cases "k \<in> fst ` set m")
  case True
  have A: "k' \<noteq> k \<Longrightarrow>
      map_of (map (\<lambda>(k', v'). if k' = k then (k', v) else (k', v')) m) k' = map_of m k'"
    by (induction m) auto
  have B: "k \<in> fst ` set m \<Longrightarrow>
      map_of (map (\<lambda>(k', v'). if k' = k then (k', v) else (k', v')) m) k = Some v"
    by (induction m) auto
  show ?thesis
  proof (cases "k' = k")
    case eq: True
    from B [OF True] True show ?thesis by (simp add: update_dict_def eq)
  next
    case ne: False
    from A [OF ne] True show ?thesis by (simp add: update_dict_def ne)
  qed
next
  case False
  then have "map_of m k = None" by (simp add: map_of_eq_None_iff)
  with False show ?thesis
    by (cases "map_of m k'") (auto simp: update_dict_def map_add_def)
qed

lemma fold_update_other:
  assumes "\<forall>q \<in> set ps. key q \<noteq> K"
  shows "map_of (fold (\<lambda>p m. update_dict (key p) p m) ps m0) K = map_of m0 K"
  using assms by (induction ps arbitrary: m0) (auto simp: map_of_update_dict)

lemma fold_update_lookup:
  assumes "\<exists>p \<in> set ps. key p = K"
  shows "\<exists>v. map_of (fold (\<lambda>p m. update_dict (key p) p m) ps m0) K = Some v \<and> v \<in> set ps \<and> key v = K"
  using assms
proof (induction ps arbitrary: m0)
  case Nil
  then show ?case by simp
next
  case (Cons p ps)
  show ?case
  proof (cases "\<exists>q \<in> set ps. key q = K")
    case True
    from Cons.IH [OF True, of "update_dict (key p) p m0"] show ?thesis by auto
  next
    case False
    with Cons.prems have kp: "key p = K" by auto
    from False have "\<forall>q \<in> set ps. key q \<noteq> K" by blast
    from fold_update_other [OF this, of "update_dict (key p) p m0"]
    have "map_of (fold (\<lambda>p m. update_dict (key p) p m) (p # ps) m0) K = Some p"
      by (simp add: map_of_update_dict kp)
    with kp show ?thesis by auto
  qed
qed

lemma gamma_classes_alt:
  "gamma_classes g = fold (\<lambda>loe m. update_dict (\<Union> (set loe)) loe m) (pieces g) []"
  unfolding gamma_classes_def pieces_def Let_def ..

lemma gamma_classes_lookup:
  assumes e: "edge_ok g e"
  shows "\<exists>es. map_of (gamma_classes g) (\<Union> (gclass g e)) = Some es \<and> set es = gclass g e"
proof -
  from ds_cover_mem [OF pieces_cover e] obtain p where p: "p \<in> set (pieces g)" "e \<in> set p" by blast
  from pieces_block_class [OF p] have sp: "set p = gclass g e" .
  then have "\<exists>p \<in> set (pieces g). \<Union> (set p) = \<Union> (gclass g e)" using p(1) by auto
  from fold_update_lookup [where key = "\<lambda>p. \<Union> (set p)", OF this, of "[]"]
  obtain v where v: "map_of (gamma_classes g) (\<Union> (gclass g e)) = Some v"
    "v \<in> set (pieces g)" "\<Union> (set v) = \<Union> (gclass g e)"
    unfolding gamma_classes_alt by blast
  from v(2) obtain e' where e': "e' \<in> set v" "edge_ok g e'" by (rule pieces_block_edge)
  from pieces_block_class [OF v(2) e'(1)] have sv: "set v = gclass g e'" .
  with v(3) have "\<Union> (gclass g e') = \<Union> (gclass g e)" by simp
  with class_vertex_sets_differ [OF e'(2) e] have "gclass g e' = gclass g e" by blast
  with sv v(1) show ?thesis by simp
qed

definition good_cache :: "graph \<Rightarrow> gclasses \<Rightarrow> bool" where
  "good_cache g c \<longleftrightarrow>
     (\<forall>ms e. is_module g (set ms) \<and> edge_ok (subgraph g ms) e
              \<and> \<Union> (gclass (subgraph g ms) e) = set ms
        \<longrightarrow> (\<exists>es. map_of c (set ms) = Some es \<and> set es = gclass (subgraph g ms) e))"

lemma good_cache_init: "good_cache g (gamma_classes g)"
  unfolding good_cache_def
proof (intro allI impI, elim conjE)
  fix ms e
  assume md: "is_module g (set ms)" and e: "edge_ok (subgraph g ms) e"
    and sp: "\<Union> (gclass (subgraph g ms) e) = set ms"
  from gclass_local [OF md e] have eq: "gclass (subgraph g ms) e = gclass g e" .
  from e have "edge_ok g e" by (simp add: edge_ok_subgraph)
  from gamma_classes_lookup [OF this] sp
  show "\<exists>es. map_of (gamma_classes g) (set ms) = Some es \<and> set es = gclass (subgraph g ms) e"
    unfolding eq by simp
qed

lemma module_trans:
  assumes S: "is_module g (set S)" and M: "is_module (subgraph g S) M"
  shows "is_module g M"
  unfolding is_module_def
proof (intro conjI ballI)
  from M have MS: "M \<subseteq> set (vertices g) \<inter> set S"
    unfolding is_module_def vertices_subgraph by simp
  then show "M \<subseteq> set (vertices g)" by simp
  fix x assume x: "x \<in> set (vertices g) - M"
  show "(\<forall>u \<in> M. has_edge g x u) \<or> (\<forall>u \<in> M. \<not> has_edge g x u)"
  proof (cases "x \<in> set S")
    case True
    with x have "x \<in> set (vertices (subgraph g S)) - M" by (simp add: vertices_subgraph)
    with M have "(\<forall>u \<in> M. has_edge (subgraph g S) x u) \<or> (\<forall>u \<in> M. \<not> has_edge (subgraph g S) x u)"
      unfolding is_module_def by blast
    then show ?thesis using True MS unfolding has_edge_subgraph by blast
  next
    case False
    with x have "x \<in> set (vertices g) - set S" by simp
    with S have "(\<forall>u \<in> set S. has_edge g x u) \<or> (\<forall>u \<in> set S. \<not> has_edge g x u)"
      unfolding is_module_def by blast
    then show ?thesis using MS by blast
  qed
qed

lemma good_cache_subgraph:
  assumes c: "good_cache g c" and S: "is_module g (set S)"
  shows "good_cache (subgraph g S) c"
  unfolding good_cache_def
proof (intro allI impI, elim conjE)
  fix ms e
  assume md: "is_module (subgraph g S) (set ms)" and e: "edge_ok (subgraph (subgraph g S) ms) e"
    and sp: "\<Union> (gclass (subgraph (subgraph g S) ms) e) = set ms"
  from md have sub: "set ms \<subseteq> set S" unfolding is_module_def vertices_subgraph by simp
  have he: "\<And>u v. has_edge (subgraph (subgraph g S) ms) u v = has_edge (subgraph g ms) u v"
    unfolding has_edge_subgraph using sub by blast
  have eq: "gclass (subgraph (subgraph g S) ms) e = gclass (subgraph g ms) e"
    by (rule gclass_cong [OF he])
  have e': "edge_ok (subgraph g ms) e" using e unfolding edge_ok_cong [OF he] .
  from module_trans [OF S md] have "is_module g (set ms)" .
  with c e' sp show "\<exists>es. map_of c (set ms) = Some es \<and> set es = gclass (subgraph (subgraph g S) ms) e"
    unfolding good_cache_def eq by blast
qed

text \<open>
  The lists of \<^verbatim>\<open>d1.values()\<close> in the \<^verbatim>\<open>PRIME\<close> case are the sets of vertices with the
  same neighbours in the spanning class, and each of them is a module.
\<close>

lemma has_edge_subgraph_edges_iff:
  "has_edge (subgraph_edges g es) u v \<longleftrightarrow> has_edge g u v \<and> {u, v} \<in> set es"
proof
  assume "has_edge (subgraph_edges g es) u v"
  then have h: "u \<noteq> v" "u \<in> set (vertices g)" "v \<in> set (vertices g)"
    and "(u, v) \<in> set (edges g) \<and> {u, v} \<in> set es \<or> (v, u) \<in> set (edges g) \<and> {v, u} \<in> set es"
    unfolding has_edge_def subgraph_edges_def by auto
  then have "((u, v) \<in> set (edges g) \<or> (v, u) \<in> set (edges g)) \<and> {u, v} \<in> set es"
    by (auto simp: insert_commute)
  with h show "has_edge g u v \<and> {u, v} \<in> set es" unfolding has_edge_def by simp
next
  assume "has_edge g u v \<and> {u, v} \<in> set es"
  then show "has_edge (subgraph_edges g es) u v" by (simp add: has_edge_subgraph_edges)
qed

fun vals :: "('k \<times> 'v list) list \<Rightarrow> 'k \<Rightarrow> 'v set" where
  "vals [] k = {}"
| "vals ((k', vs) # m) k = (if k' = k then set vs \<union> vals m k else vals m k)"

lemma vals_dict_append_same: "vals (dict_append m k v) k = insert v (vals m k)"
proof (induction m)
  case Nil
  show ?case by simp
next
  case (Cons p m)
  obtain k0 vs where p: "p = (k0, vs)" by (cases p)
  from Cons.IH show ?case by (cases "k0 = k") (simp_all add: p)
qed

lemma vals_dict_append_other: "k' \<noteq> k \<Longrightarrow> vals (dict_append m k v) k' = vals m k'"
proof (induction m)
  case Nil
  then show ?case by simp
next
  case (Cons p m)
  obtain k0 vs where p: "p = (k0, vs)" by (cases p)
  from Cons show ?case by (cases "k0 = k") (simp_all add: p)
qed

lemma vals_dict_append:
  "vals (dict_append m k v) k' = (if k' = k then insert v (vals m k') else vals m k')"
  by (simp add: vals_dict_append_same vals_dict_append_other)

lemma vals_fold_inner:
  "vals (fold (\<lambda>k m'. dict_append m' k v) ks m) k' = (if k' \<in> set ks then insert v (vals m k') else vals m k')"
  by (induction ks arbitrary: m) (simp_all add: vals_dict_append)

lemma vals_fold_outer:
  "vals (fold (\<lambda>v m. fold (\<lambda>k m'. dict_append m' k v) (f v) m) xs m) k'
     = vals m k' \<union> {v \<in> set xs. k' \<in> set (f v)}"
proof (induction xs arbitrary: m)
  case Nil
  show ?case by simp
next
  case (Cons x xs)
  have "vals (fold (\<lambda>v m. fold (\<lambda>k m'. dict_append m' k v) (f v) m) (x # xs) m) k'
      = vals (fold (\<lambda>k m'. dict_append m' k x) (f x) m) k' \<union> {v \<in> set xs. k' \<in> set (f v)}"
    by (simp add: Cons.IH)
  also have "\<dots> = vals m k' \<union> {v \<in> set (x # xs). k' \<in> set (f v)}"
    unfolding vals_fold_inner by auto
  finally show ?case .
qed

lemma vals_mem: "x \<in> vals m k \<longleftrightarrow> (\<exists>vs. (k, vs) \<in> set m \<and> x \<in> set vs)"
  by (induction m k rule: vals.induct) auto

lemma vals_entry:
  assumes "distinct (map fst m)" and "(k, vs) \<in> set m"
  shows "vals m k = set vs"
proof (intro set_eqI iffI)
  fix x assume "x \<in> vals m k"
  then obtain vs' where vs': "(k, vs') \<in> set m" "x \<in> set vs'" unfolding vals_mem by blast
  from eq_key_imp_eq_value [OF assms(1) vs'(1) assms(2)] vs'(2) show "x \<in> set vs" by simp
next
  fix x assume "x \<in> set vs"
  with assms(2) show "x \<in> vals m k" unfolding vals_mem by blast
qed

lemma vals_fold_pairs:
  "vals (fold (\<lambda>(a, b) m. dict_append m (f b) a) xs m) K
     = vals m K \<union> {a. \<exists>b. (a, b) \<in> set xs \<and> f b = K}"
proof (induction xs arbitrary: m)
  case Nil
  show ?case by simp
next
  case (Cons x xs)
  obtain a b where x: "x = (a, b)" by (cases x)
  have "vals (fold (\<lambda>(a, b) m. dict_append m (f b) a) (x # xs) m) K
      = vals (dict_append m (f b) a) K \<union> {a. \<exists>b. (a, b) \<in> set xs \<and> f b = K}"
    by (simp add: x Cons.IH)
  also have "\<dots> = vals m K \<union> {a'. \<exists>b'. (a', b') \<in> set (x # xs) \<and> f b' = K}"
    unfolding vals_dict_append x by auto
  finally show ?case .
qed

lemma vals_neighbor_dict: "vals (neighbor_dict sub) k = {v. has_edge sub v k}"
proof -
  have "vals (neighbor_dict sub) k = {v \<in> set (vertices sub). k \<in> set (neighbors_of sub v)}"
    unfolding neighbor_dict_def vals_fold_outer by simp
  also have "\<dots> = {v. has_edge sub v k}"
    unfolding neighbors_of_set by (auto simp: has_edge_def)
  finally show ?thesis .
qed

lemma keys_fold_pairs:
  "distinct (map fst m) \<Longrightarrow> distinct (map fst (fold (\<lambda>(a, b) m. dict_append m (f b) a) xs m))"
proof (induction xs arbitrary: m)
  case Nil
  then show ?case by simp
next
  case (Cons x xs)
  obtain a b where x: "x = (a, b)" by (cases x)
  from Cons.prems have "distinct (map fst (dict_append m (f b) a))"
    by (simp add: dict_append_keys)
  from Cons.IH [OF this] show ?case by (simp add: x)
qed

lemma bucket_sets:
  assumes "b \<in> set (neighbor_buckets sub)"
  shows "\<exists>S. set b = {k \<in> set (map fst (neighbor_dict sub)). {v. has_edge sub v k} = S}"
proof -
  let ?nd = "neighbor_dict sub"
  let ?m2 = "fold (\<lambda>(k, v) m. dict_append m (set v) k) ?nd []"
  from assms obtain S where S: "(S, b) \<in> set ?m2" by (auto simp: neighbor_buckets_def)
  have "distinct (map fst ?m2)" by (rule keys_fold_pairs) simp
  from vals_entry [OF this S] have "set b = vals ?m2 S" by simp
  also have "\<dots> = {a. \<exists>vs. (a, vs) \<in> set ?nd \<and> set vs = S}"
    unfolding vals_fold_pairs by simp
  also have "\<dots> = {k \<in> set (map fst ?nd). {v. has_edge sub v k} = S}"
  proof (intro set_eqI iffI)
    fix a assume "a \<in> {a. \<exists>vs. (a, vs) \<in> set ?nd \<and> set vs = S}"
    then obtain vs where vs: "(a, vs) \<in> set ?nd" "set vs = S" by blast
    from vals_entry [OF neighbor_dict_keys(1) vs(1)] vs(2)
    have "{v. has_edge sub v a} = S" by (simp add: vals_neighbor_dict)
    moreover from vs(1) have "a \<in> set (map fst ?nd)" by force
    ultimately show "a \<in> {k \<in> set (map fst ?nd). {v. has_edge sub v k} = S}" by simp
  next
    fix a assume "a \<in> {k \<in> set (map fst ?nd). {v. has_edge sub v k} = S}"
    then have a: "a \<in> set (map fst ?nd)" "{v. has_edge sub v a} = S" by simp_all
    from a(1) obtain vs where vs: "(a, vs) \<in> set ?nd" by auto
    from vals_entry [OF neighbor_dict_keys(1) vs] a(2)
    have "set vs = S" by (simp add: vals_neighbor_dict)
    with vs show "a \<in> {a. \<exists>vs. (a, vs) \<in> set ?nd \<and> set vs = S}" by blast
  qed
  finally show ?thesis by blast
qed

lemma class_has_edge:
  assumes "edge_ok g e" and "{p, q} \<in> gclass g e"
  shows "has_edge g p q"
proof -
  from gclass_edge [OF assms] have "edge_ok g {p, q}" .
  moreover have "p \<in> {p, q}" by simp
  ultimately obtain q' where "{p, q} = {p, q'}" "has_edge g p q'" by (rule edge_ok_at)
  then show ?thesis by (auto simp: doubleton_eq_iff has_edge_commute)
qed

lemma bucket_is_module:
  assumes e: "edge_ok g e" and span: "\<Union> (gclass g e) = set (vertices g)"
      and es: "set es = gclass g e"
      and b: "b \<in> set (neighbor_buckets (subgraph_edges g es))"
  shows "is_module g (set b)"
proof -
  let ?sub = "subgraph_edges g es"
  have he: "has_edge ?sub v k \<longleftrightarrow> {k, v} \<in> gclass g e" for v k
    unfolding has_edge_subgraph_edges_iff es
    using class_has_edge [OF e, of v k] by (auto simp: insert_commute)
  have vs: "vertices ?sub = vertices g" by (simp add: subgraph_edges_def)
  have keys: "set (map fst (neighbor_dict ?sub)) = set (vertices g)"
  proof (intro set_eqI iffI)
    fix k assume "k \<in> set (map fst (neighbor_dict ?sub))"
    then obtain v where "k \<in> set (neighbors_of ?sub v)"
      unfolding neighbor_dict_keys(2) by blast
    then have "has_edge ?sub v k" by (simp add: neighbors_of_set)
    then show "k \<in> set (vertices g)" by (simp add: has_edge_def vs)
  next
    fix k assume "k \<in> set (vertices g)"
    with span obtain e' where e': "e' \<in> gclass g e" "k \<in> e'" by blast
    from gclass_edge [OF e e'(1)] e'(2) obtain s where s: "e' = {k, s}" "has_edge g k s"
      by (rule edge_ok_at)
    from e'(1) s(1) have "has_edge ?sub s k" by (simp add: he)
    moreover from this have "s \<in> set (vertices ?sub)" by (simp add: has_edge_def)
    ultimately show "k \<in> set (map fst (neighbor_dict ?sub))"
      unfolding neighbor_dict_keys(2) neighbors_of_set by blast
  qed
  from bucket_sets [OF b] obtain S where
    "set b = {k \<in> set (vertices g). {v. {k, v} \<in> gclass g e} = S}"
    unfolding keys he by blast
  then show ?thesis by (simp add: bucket_module [OF e span])
qed

text \<open>
  \<^verbatim>\<open>habib_maurer_algorithm\<close> returns a tree on every undirected graph with distinct
  vertices: the dictionary of classes, computed once and passed down, has the vertex set
  of every subgraph reached as a key.
\<close>

lemma traverse_total:
  assumes "\<And>x. x \<in> set xs \<Longrightarrow> \<exists>y. f x = Inr y"
  shows "\<exists>ys. traverse f xs = Inr ys"
  using assms
proof (induction xs)
  case Nil
  show ?case by simp
next
  case (Cons x xs)
  from Cons.prems [of x] obtain y where y: "f x = Inr y" by auto
  from Cons.IH Cons.prems obtain ys where "traverse f xs = Inr ys" by auto
  with y show ?case by simp
qed

definition cache_good :: "graph \<Rightarrow> gclasses option \<Rightarrow> bool" where
  "cache_good g gc \<longleftrightarrow> (case gc of None \<Rightarrow> True | Some c \<Rightarrow> good_cache g c)"

lemma cache_good_subgraph:
  "cache_good g gc \<Longrightarrow> is_module g (set S) \<Longrightarrow> cache_good (subgraph g S) gc"
  by (cases gc) (simp_all add: cache_good_def good_cache_subgraph)

lemma module_all: "is_module g (set (vertices g))"
  unfolding is_module_def by simp

lemma directed_subgraph: "directed (subgraph g S) = directed g"
  by (simp add: subgraph_def)

lemma spanning_lookup:
  assumes nd: "distinct (vertices g)" and n0: "order g \<noteq> 0" and n1: "order g \<noteq> 1"
      and conn: "is_connected g" and coconn: "is_connected (complement g)"
      and c: "good_cache g c"
  shows "\<exists>e es. edge_ok g e \<and> \<Union> (gclass g e) = set (vertices g)
           \<and> map_of c (set (vertices g)) = Some es \<and> set es = gclass g e"
proof -
  from n0 n1 obtain a b rest where vs: "vertices g = a # b # rest"
    by (cases "vertices g"; cases "tl (vertices g)") (auto simp: order_def)
  with nd have ab: "a \<noteq> b" by auto
  have "\<exists>e. edge_ok g e \<and> \<Union> (gclass g e) = set (vertices g)"
  proof (rule spanning_class_exists)
    show "a \<in> set (vertices g)" "b \<in> set (vertices g)" "a \<noteq> b" using vs ab by simp_all
  next
    fix A :: "pyval set" assume "A \<noteq> {}" "A \<subset> set (vertices g)"
    then show "\<exists>u \<in> A. \<exists>w \<in> set (vertices g) - A. has_edge g u w"
      by (rule connected_crossing [OF conn])
  next
    fix A :: "pyval set" assume "A \<noteq> {}" "A \<subset> set (vertices g)"
    then show "\<exists>u \<in> A. \<exists>w \<in> set (vertices g) - A. \<not> has_edge g u w"
      by (rule coconnected_crossing [OF coconn])
  qed
  then obtain e where e: "edge_ok g e" "\<Union> (gclass g e) = set (vertices g)" by blast
  from gclass_refl [of e g] e(2) have "e \<subseteq> set (vertices g)" by blast
  with e(1) have e': "edge_ok (subgraph g (vertices g)) e" by (simp add: edge_ok_subgraph)
  from gclass_local [OF module_all e'] have eq: "gclass (subgraph g (vertices g)) e = gclass g e" .
  from c module_all [of g] e' e(2) eq
  obtain es where "map_of c (set (vertices g)) = Some es" "set es = gclass g e"
    unfolding good_cache_def by metis
  with e show ?thesis by blast
qed

lemma hm_total:
  assumes "\<not> directed g" and "distinct (vertices g)" and "cache_good g gc"
  shows "\<exists>t. habib_maurer_algorithm g gc = Inr t"
  using assms
proof (induction g gc rule: habib_maurer_algorithm.induct)
  case (1 g gc)
  note nd = \<open>\<not> directed g\<close> and d = \<open>distinct (vertices g)\<close> and ok = \<open>cache_good g gc\<close>
  note eq = habib_maurer_algorithm.simps [of g gc]
  show ?case
  proof (cases "order g = 0")
    case True
    with eq nd show ?thesis by simp
  next
    case n0: False
    show ?thesis
    proof (cases "order g = 1")
      case True
      with eq nd n0 show ?thesis by simp
    next
      case n1: False
      show ?thesis
      proof (cases "is_connected g")
        case False
        have "\<exists>cs. traverse (\<lambda>sg. habib_maurer_algorithm (subgraph g sg) gc)
                 (connected_components g) = Inr cs"
        proof (rule traverse_total)
          fix sg assume sg: "sg \<in> set (connected_components g)"
          show "\<exists>y. habib_maurer_algorithm (subgraph g sg) gc = Inr y"
            using "1.IH"(1) [OF nd n0 n1 False sg] nd d
              cache_good_subgraph [OF ok component_module [OF sg]]
            by (simp add: directed_subgraph distinct_subgraph)
        qed
        with eq nd n0 n1 False show ?thesis by auto
      next
        case conn: True
        show ?thesis
        proof (cases "is_connected (complement g)")
          case False
          have "\<exists>cs. traverse (\<lambda>sg. habib_maurer_algorithm (subgraph g sg) gc)
                   (connected_components (complement g)) = Inr cs"
          proof (rule traverse_total)
            fix sg assume sg: "sg \<in> set (connected_components (complement g))"
            show "\<exists>y. habib_maurer_algorithm (subgraph g sg) gc = Inr y"
              using "1.IH"(3) [OF nd n0 n1 _ refl False sg] conn nd d
                cache_good_subgraph [OF ok cocomponent_module [OF sg]]
              by (simp add: directed_subgraph distinct_subgraph)
          qed
          with eq nd n0 n1 conn False show ?thesis by (auto simp: Let_def)
        next
          case True
          define c where "c = (case gc of None \<Rightarrow> gamma_classes g | Some c \<Rightarrow> c)"
          have gcache: "good_cache g c"
            using ok by (cases gc) (simp_all add: c_def cache_good_def good_cache_init)
          from spanning_lookup [OF d n0 n1 conn True gcache]
          obtain e es where e: "edge_ok g e" "\<Union> (gclass g e) = set (vertices g)"
            and look: "map_of c (set (vertices g)) = Some es" and es: "set es = gclass g e"
            by blast
          have "\<exists>cs. traverse (\<lambda>sg. habib_maurer_algorithm (subgraph g sg) (Some c))
                   (neighbor_buckets (subgraph_edges g es)) = Inr cs"
          proof (rule traverse_total)
            fix sg assume sg: "sg \<in> set (neighbor_buckets (subgraph_edges g es))"
            from bucket_is_module [OF e es sg] have "is_module g (set sg)" .
            from good_cache_subgraph [OF gcache this]
            have "cache_good (subgraph g sg) (Some c)" by (simp add: cache_good_def)
            then show "\<exists>y. habib_maurer_algorithm (subgraph g sg) (Some c) = Inr y"
              using "1.IH"(2) [OF nd n0 n1 _ refl True c_def look sg] conn nd d
              by (simp add: directed_subgraph distinct_subgraph)
          qed
          with eq nd n0 n1 conn True look show ?thesis by (auto simp: Let_def c_def)
        qed
      qed
    qed
  qed
qed

lemma hm_returns:
  assumes "simple_graph g"
  shows "\<exists>t. habib_maurer_algorithm g None = Inr t"
proof (rule hm_total)
  from assms show "\<not> directed g" "distinct (vertices g)" by (simp_all add: simple_graph_def)
  show "cache_good g None" by (simp add: cache_good_def)
qed

text \<open>
  Claim C10: the leaves of the tree returned by the decomposer are in bijection with the
  vertices of the graph. For every simple undirected graph \<^verbatim>\<open>habib_maurer_algorithm\<close>
  returns a tree, and \<^verbatim>\<open>get_vertices\<close> of that tree returns a list without repetition,
  of as many entries as the graph has vertices, whose entries are exactly the vertices of
  the graph.
\<close>

theorem habib_maurer_leaves_are_vertices:
  assumes "simple_graph g"
  shows "\<exists>t vs. habib_maurer_algorithm g None = Inr t \<and> get_vertices t = Inr vs
           \<and> distinct vs \<and> set vs = set (vertices g) \<and> length vs = order g"
proof -
  from assms have d: "distinct (vertices g)" by (simp add: simple_graph_def)
  from hm_returns [OF assms] obtain t where t: "habib_maurer_algorithm g None = Inr t" by blast
  have "cache_ok g None" by (simp add: cache_ok_def)
  from hm_vertices [OF d this t]
  obtain vs where vs: "get_vertices t = Inr vs" "mset vs = mset (vertices g)" by blast
  from vs(2) d have "distinct vs" by (metis mset_eq_imp_distinct_iff)
  moreover from vs(2) have "set vs = set (vertices g)" by (rule mset_eq_setD)
  moreover from vs(2) have "length vs = order g"
    unfolding order_def by (rule mset_eq_length)
  ultimately show ?thesis using t vs(1) by blast
qed

theorem habib_maurer_leaves_witness:
  "simple_graph (mk_graph [0, 1, 2, 3] [(0, 1), (1, 2), (2, 3)])
   \<and> (\<exists>t vs. habib_maurer_algorithm (mk_graph [0, 1, 2, 3] [(0, 1), (1, 2), (2, 3)]) None = Inr t
         \<and> get_vertices t = Inr vs \<and> distinct vs
         \<and> set vs = set (vertices (mk_graph [0, 1, 2, 3] [(0, 1), (1, 2), (2, 3)]))
         \<and> length vs = order (mk_graph [0, 1, 2, 3] [(0, 1), (1, 2), (2, 3)]))"
proof -
  have sg: "simple_graph (mk_graph [0, 1, 2, 3] [(0, 1), (1, 2), (2, 3)])"
    by code_simp
  from habib_maurer_leaves_are_vertices [OF sg] sg show ?thesis by blast
qed

subsection \<open>Numbering components\<close>

lemma number_comps_other_type:
  assumes "type (h ! n) \<noteq> by_type"
      and "number_comps fuel n s by_type h = Inr (k, h')"
  shows "k = 0"
  using assms by (auto simp: number_comps_def Let_def split: if_splits sum.splits)

text \<open>
  Claim C7: \<^verbatim>\<open>number_comps(s, by_type)\<close> returns the count of numbers consumed: the number
  of children when the node's type is \<^verbatim>\<open>by_type\<close>, and one otherwise. The code returns
  \<^verbatim>\<open>comp_number - orig_comp_number\<close>, and its \<^verbatim>\<open>else\<close> branch never increments
  \<^verbatim>\<open>comp_number\<close>: on a single leaf (whose type is the default \<^verbatim>\<open>PRIME\<close>), numbered by
  \<^verbatim>\<open>PARALLEL\<close> from 5, the leaf gets the number 5 and the call returns 0.
\<close>

theorem number_comps_leaf_returns_zero:
  "number_comps 10 0 5 PARALLEL [new_leaf (PInt 7)]
     = Inr (0, [(new_leaf (PInt 7))\<lparr>comp_number := 5\<rparr>])"
  by code_simp

end
